theory Spec2Isabelle
  imports Main "HOL-Library.Word"
begin

section \<open>The transaction log iterator of yb/rocksdb/db/transaction_log_impl\<close>

text \<open>
  A shallow embedding of \<^verbatim>\<open>TransactionLogIteratorImpl\<close>
  (transaction_log_impl.h, transaction_log_impl.cc). The member functions become
  functions on a record of the members. The collaborators of the class that are declared
  elsewhere (the file system, the file naming functions, the version set, the framed log
  reader, the write batch header) are the fields of the record \<open>World\<close> or are carried
  by the data, as explained where each is introduced.
\<close>

subsection \<open>Data\<close>

type_synonym SequenceNumber = "64 word"

datatype WalFileType = kArchivedLogFile | kAliveLogFile

text \<open>\<^verbatim>\<open>LogFileImpl\<close>: the four members and their getters.\<close>

record LogFile =
  LogNumber :: "64 word"
  Type :: WalFileType
  StartSequence :: SequenceNumber
  SizeFileBytes :: "64 word"

text \<open>
  \<^verbatim>\<open>Status\<close>: either OK or a code with a message, as built by
  \<^verbatim>\<open>STATUS(Corruption, "...")\<close>.
\<close>

datatype Code = kNotFound | kCorruption | kNotSupported | kInvalidArgument | kIOError

datatype Status = OK | STATUS Code string

fun ok :: "Status \<Rightarrow> bool" where
  "ok OK = True"
| "ok (STATUS c m) = False"

text \<open>
  A log record (\<^verbatim>\<open>Slice\<close>) as the iterator uses it: its length in bytes, and the two
  header fields that \<^verbatim>\<open>WriteBatchInternal::Sequence\<close> and
  \<^verbatim>\<open>WriteBatchInternal::Count\<close> read from a write batch with these contents.
  \<open>Count\<close> is the value that is added to a sequence number, so it has that type.
\<close>

record Slice =
  slice_size :: nat
  Sequence :: SequenceNumber
  Count :: SequenceNumber

text \<open>
  \<^verbatim>\<open>log::Reader\<close>: the records that \<^verbatim>\<open>ReadRecord\<close> has still to return, and the
  end-of-file mark. The file is not appended to while the iterator reads it.
\<close>

record Reader =
  pending :: "Slice list"
  eof :: bool

definition ReadRecord :: "Reader \<Rightarrow> Slice option \<times> Reader" where
  "ReadRecord rd =
     (case pending rd of
        [] \<Rightarrow> (None, rd\<lparr>eof := True\<rparr>)
      | r # rs \<Rightarrow> (Some r, rd\<lparr>pending := rs\<rparr>))"

definition IsEOF :: "Reader \<Rightarrow> bool" where
  "IsEOF rd = eof rd"

definition UnmarkEOF :: "Reader \<Rightarrow> Reader" where
  "UnmarkEOF rd = rd\<lparr>eof := False\<rparr>"

text \<open>
  What the iterator reaches through \<^verbatim>\<open>options_->env\<close>, filename.h and
  \<^verbatim>\<open>versions_\<close>: the two naming functions, \<^verbatim>\<open>Env::NewSequentialFile\<close>
  (a failure status, or the records of the opened file) and
  \<^verbatim>\<open>VersionSet::LastSequence\<close>.
\<close>

record World =
  LogFileName :: "string \<Rightarrow> 64 word \<Rightarrow> string"
  ArchivedLogFileName :: "string \<Rightarrow> 64 word \<Rightarrow> string"
  NewSequentialFile :: "string \<Rightarrow> (Code \<times> string) + Slice list"
  LastSequence :: SequenceNumber

text \<open>The members of \<^verbatim>\<open>TransactionLogIteratorImpl\<close>.\<close>

record TransactionLogIteratorImpl =
  dir :: string
  startingSequenceNumber :: SequenceNumber
  files :: "LogFile list"
  started :: bool
  isValid :: bool
  currentStatus :: Status
  currentFileIndex :: nat
  currentBatch :: "Slice option"
  currentLogReader :: "Reader option"
  currentBatchSeq :: SequenceNumber
  currentLastSeq :: SequenceNumber

text \<open>\<^verbatim>\<open>BatchResult\<close>.\<close>

record BatchResult =
  sequence :: SequenceNumber
  writeBatchPtr :: "Slice option"

text \<open>
  How a call can end without returning: a failed \<^verbatim>\<open>assert\<close> (named by its line),
  the exception of \<^verbatim>\<open>vector::at\<close>, the use of a null \<^verbatim>\<open>currentLogReader_\<close>,
  and, for the model only, an exhausted recursion budget.
\<close>

datatype fault = OutOfFuel | AssertionFailed nat | out_of_range | NullReader

subsection \<open>Opening a log file\<close>

definition OpenLogFile :: "World \<Rightarrow> string \<Rightarrow> LogFile \<Rightarrow> (Code \<times> string) + Slice list" where
  "OpenLogFile W d logFile =
     (if Type logFile = kArchivedLogFile then
        NewSequentialFile W (ArchivedLogFileName W d (LogNumber logFile))
      else
        (case NewSequentialFile W (LogFileName W d (LogNumber logFile)) of
           Inr recs \<Rightarrow> Inr recs
         | Inl e \<Rightarrow> NewSequentialFile W (ArchivedLogFileName W d (LogNumber logFile))))"

text \<open>\<^verbatim>\<open>OpenLogReader\<close>: the status, and the iterator with the new reader when it is OK.\<close>

definition OpenLogReader :: "World \<Rightarrow> TransactionLogIteratorImpl \<Rightarrow> LogFile
    \<Rightarrow> Status \<times> TransactionLogIteratorImpl" where
  "OpenLogReader W s logFile =
     (case OpenLogFile W (dir s) logFile of
        Inl (c, m) \<Rightarrow> (STATUS c m, s)
      | Inr recs \<Rightarrow> (OK, s\<lparr>currentLogReader := Some \<lparr>pending = recs, eof = False\<rparr>\<rparr>))"

subsection \<open>The observers\<close>

definition GetBatch :: "TransactionLogIteratorImpl \<Rightarrow> fault + (BatchResult \<times> TransactionLogIteratorImpl)" where
  "GetBatch s =
     (if \<not> isValid s then Inl (AssertionFailed 85)
      else Inr (\<lparr>sequence = currentBatchSeq s, writeBatchPtr = currentBatch s\<rparr>,
                s\<lparr>currentBatch := None\<rparr>))"

definition status :: "TransactionLogIteratorImpl \<Rightarrow> Status" where
  "status s = currentStatus s"

definition Valid :: "TransactionLogIteratorImpl \<Rightarrow> bool" where
  "Valid s = (started s \<and> isValid s)"

subsection \<open>Reading\<close>

definition RestrictedRead :: "World \<Rightarrow> TransactionLogIteratorImpl
    \<Rightarrow> fault + (Slice option \<times> TransactionLogIteratorImpl)" where
  "RestrictedRead W s =
     (if currentLastSeq s \<ge> LastSequence W then Inr (None, s)
      else
        (case currentLogReader s of
           None \<Rightarrow> Inl NullReader
         | Some rd \<Rightarrow>
             (case ReadRecord rd of
                (r, rd') \<Rightarrow> Inr (r, s\<lparr>currentLogReader := Some rd'\<rparr>))))"

definition IsBatchExpected :: "Slice \<Rightarrow> SequenceNumber \<Rightarrow> bool" where
  "IsBatchExpected batch expectedSeq = (Sequence batch = expectedSeq)"

text \<open>
  Lines 264 to 272 of \<^verbatim>\<open>UpdateCurrentWriteBatch\<close>: the batch is taken as the current
  one.
\<close>

definition AcceptBatch :: "World \<Rightarrow> TransactionLogIteratorImpl \<Rightarrow> Slice
    \<Rightarrow> fault + TransactionLogIteratorImpl" where
  "AcceptBatch W s batch =
     (let s1 = s\<lparr>currentBatchSeq := Sequence batch\<rparr>;
          s2 = s1\<lparr>currentLastSeq := currentBatchSeq s1 + Count batch - 1\<rparr>
      in if \<not> currentLastSeq s2 \<le> LastSequence W then Inl (AssertionFailed 268)
         else Inr (s2\<lparr>currentBatch := Some batch, isValid := True, currentStatus := OK\<rparr>))"

text \<open>\<^verbatim>\<open>files_->size() - 1\<close> in \<^verbatim>\<open>size_t\<close>: it wraps on an empty list.\<close>

definition size_minus_1 :: "LogFile list \<Rightarrow> nat" where
  "size_minus_1 fs = (if length fs = 0 then 2 ^ 64 - 1 else length fs - 1)"

definition gap_status :: Status where
  "gap_status = STATUS kCorruption
     ''Gap in sequence number. Could not seek to required sequence number''"

subsection \<open>Seeking and advancing\<close>

text \<open>
  \<^verbatim>\<open>UpdateCurrentWriteBatch\<close>, \<^verbatim>\<open>SeekToStartSequence\<close> and \<^verbatim>\<open>NextImpl\<close> call
  each other. The first argument bounds the depth of calls and loop iterations; with
  none left the result is \<open>Inl OutOfFuel\<close>. \<open>SeekLoop\<close> is the loop of
  \<^verbatim>\<open>SeekToStartSequence\<close> with the code after it; \<open>NextOuter\<close> is the
  \<^verbatim>\<open>while(true)\<close> of \<^verbatim>\<open>NextImpl\<close> and \<open>NextInner\<close> its reading loop with the
  code after it.
\<close>

function UpdateCurrentWriteBatch :: "nat \<Rightarrow> World \<Rightarrow> TransactionLogIteratorImpl \<Rightarrow> Slice
      \<Rightarrow> fault + TransactionLogIteratorImpl"
and SeekToStartSequence :: "nat \<Rightarrow> World \<Rightarrow> TransactionLogIteratorImpl \<Rightarrow> nat \<Rightarrow> bool
      \<Rightarrow> fault + TransactionLogIteratorImpl"
and SeekLoop :: "nat \<Rightarrow> World \<Rightarrow> TransactionLogIteratorImpl \<Rightarrow> bool
      \<Rightarrow> fault + TransactionLogIteratorImpl"
and NextImpl :: "nat \<Rightarrow> World \<Rightarrow> TransactionLogIteratorImpl \<Rightarrow> bool
      \<Rightarrow> fault + TransactionLogIteratorImpl"
and NextOuter :: "nat \<Rightarrow> World \<Rightarrow> TransactionLogIteratorImpl \<Rightarrow> bool
      \<Rightarrow> fault + TransactionLogIteratorImpl"
and NextInner :: "nat \<Rightarrow> World \<Rightarrow> TransactionLogIteratorImpl \<Rightarrow> bool
      \<Rightarrow> fault + TransactionLogIteratorImpl"
where
  "UpdateCurrentWriteBatch 0 W s batch = Inl OutOfFuel"
| "UpdateCurrentWriteBatch (Suc n) W s batch =
     (let expectedSeq = currentLastSeq s + 1 in
      if started s \<and> \<not> IsBatchExpected batch expectedSeq then
        (if \<not> currentFileIndex s < length (files s) then Inl out_of_range
         else
           let s1 = (if expectedSeq < StartSequence (files s ! currentFileIndex s)
                        \<and> currentFileIndex s \<noteq> 0
                     then s\<lparr>currentFileIndex := currentFileIndex s - 1\<rparr> else s);
               s2 = s1\<lparr>startingSequenceNumber := expectedSeq\<rparr>;
               s3 = s2\<lparr>currentStatus := STATUS kNotFound ''Gap in sequence numbers''\<rparr>
           in SeekToStartSequence n W s3 (currentFileIndex s3) True)
      else AcceptBatch W s batch)"
| "SeekToStartSequence 0 W s startFileIndex strict = Inl OutOfFuel"
| "SeekToStartSequence (Suc n) W s startFileIndex strict =
     (let s1 = s\<lparr>started := False, isValid := False\<rparr> in
      if length (files s1) \<le> startFileIndex then Inr s1
      else
        (case OpenLogReader W s1 (files s1 ! startFileIndex) of
           (st, s2) \<Rightarrow>
             if \<not> ok st then Inr (s2\<lparr>currentStatus := st\<rparr>)
             else SeekLoop n W s2 strict))"
| "SeekLoop 0 W s strict = Inl OutOfFuel"
| "SeekLoop (Suc n) W s strict =
     (case RestrictedRead W s of
        Inl f \<Rightarrow> Inl f
      | Inr (Some record, s1) \<Rightarrow>
          if slice_size record < 12 then SeekLoop n W s1 strict
          else
            (case UpdateCurrentWriteBatch n W s1 record of
               Inl f \<Rightarrow> Inl f
             | Inr s2 \<Rightarrow>
                 if currentLastSeq s2 \<ge> startingSequenceNumber s2 then
                   (if strict \<and> currentBatchSeq s2 \<noteq> startingSequenceNumber s2
                    then Inr (s2\<lparr>currentStatus := gap_status\<rparr>)
                    else Inr (s2\<lparr>isValid := True, started := True\<rparr>))
                 else SeekLoop n W (s2\<lparr>isValid := False\<rparr>) strict)
      | Inr (None, s1) \<Rightarrow>
          if strict then Inr (s1\<lparr>currentStatus := gap_status\<rparr>)
          else if length (files s1) \<noteq> 1 then
            NextImpl n W
              (s1\<lparr>currentStatus := STATUS kCorruption
                    ''Start sequence was not found, skipping to the next available''\<rparr>)
              True
          else Inr s1)"
| "NextImpl 0 W s internal = Inl OutOfFuel"
| "NextImpl (Suc n) W s internal =
     (let s1 = s\<lparr>isValid := False\<rparr> in
      if \<not> internal \<and> \<not> started s1 then SeekToStartSequence n W s1 0 False
      else NextOuter n W s1 internal)"
| "NextOuter 0 W s internal = Inl OutOfFuel"
| "NextOuter (Suc n) W s internal =
     (case currentLogReader s of
        None \<Rightarrow> Inl (AssertionFailed 182)
      | Some rd \<Rightarrow>
          NextInner n W
            (if IsEOF rd then s\<lparr>currentLogReader := Some (UnmarkEOF rd)\<rparr> else s)
            internal)"
| "NextInner 0 W s internal = Inl OutOfFuel"
| "NextInner (Suc n) W s internal =
     (case RestrictedRead W s of
        Inl f \<Rightarrow> Inl f
      | Inr (Some record, s1) \<Rightarrow>
          if slice_size record < 12 then NextInner n W s1 internal
          else if \<not> (internal \<or> started s1) then Inl (AssertionFailed 193)
          else if \<not> (\<not> internal \<or> \<not> started s1) then Inl (AssertionFailed 195)
          else
            (case UpdateCurrentWriteBatch n W s1 record of
               Inl f \<Rightarrow> Inl f
             | Inr s2 \<Rightarrow>
                 Inr (if internal \<and> \<not> started s2 then s2\<lparr>started := True\<rparr> else s2))
      | Inr (None, s1) \<Rightarrow>
          if currentFileIndex s1 < size_minus_1 (files s1) then
            (let s2 = s1\<lparr>currentFileIndex := currentFileIndex s1 + 1\<rparr> in
             if \<not> currentFileIndex s2 < length (files s2) then Inl out_of_range
             else
               (case OpenLogReader W s2 (files s2 ! currentFileIndex s2) of
                  (st, s3) \<Rightarrow>
                    if \<not> ok st then Inr (s3\<lparr>isValid := False, currentStatus := st\<rparr>)
                    else NextOuter n W s3 internal))
          else
            (let s2 = s1\<lparr>isValid := False\<rparr> in
             if currentLastSeq s2 = LastSequence W
             then Inr (s2\<lparr>currentStatus := OK\<rparr>)
             else Inr (s2\<lparr>currentStatus := STATUS kCorruption ''NO MORE DATA LEFT''\<rparr>)))"
  by pat_completeness simp_all

termination
  by (relation "measure (\<lambda>x. case x of
      Inl (Inl (n, _)) \<Rightarrow> n
    | Inl (Inr (Inl (n, _))) \<Rightarrow> n
    | Inl (Inr (Inr (n, _))) \<Rightarrow> n
    | Inr (Inl (n, _)) \<Rightarrow> n
    | Inr (Inr (Inl (n, _))) \<Rightarrow> n
    | Inr (Inr (Inr (n, _))) \<Rightarrow> n)") simp_all

subsection \<open>The public operations\<close>

text \<open>
  A budget that no run exhausts, as the subsection on termination proves: it counts the
  records that the current reader and the files of the list hold.
\<close>

definition file_weight :: "World \<Rightarrow> string \<Rightarrow> LogFile \<Rightarrow> nat" where
  "file_weight W d f = (case OpenLogFile W d f of Inl e \<Rightarrow> 2 | Inr recs \<Rightarrow> length recs + 2)"

definition reader_weight :: "TransactionLogIteratorImpl \<Rightarrow> nat" where
  "reader_weight s = (case currentLogReader s of None \<Rightarrow> 0 | Some rd \<Rightarrow> length (pending rd))"

definition enough :: "World \<Rightarrow> TransactionLogIteratorImpl \<Rightarrow> nat" where
  "enough W s = reader_weight s + 3 * sum_list (map (file_weight W (dir s)) (files s)) + 10"

text \<open>The constructor: the member initialisers, then \<^verbatim>\<open>SeekToStartSequence()\<close>.\<close>

definition initial :: "string \<Rightarrow> SequenceNumber \<Rightarrow> LogFile list \<Rightarrow> TransactionLogIteratorImpl" where
  "initial d seq fs =
     \<lparr>dir = d, startingSequenceNumber = seq, files = fs, started = False, isValid = False,
      currentStatus = OK, currentFileIndex = 0, currentBatch = None, currentLogReader = None,
      currentBatchSeq = 0, currentLastSeq = 0\<rparr>"

definition NewIterator :: "World \<Rightarrow> string \<Rightarrow> SequenceNumber \<Rightarrow> LogFile list
    \<Rightarrow> fault + TransactionLogIteratorImpl" where
  "NewIterator W d seq fs =
     SeekToStartSequence (enough W (initial d seq fs)) W (initial d seq fs) 0 False"

definition Next :: "World \<Rightarrow> TransactionLogIteratorImpl \<Rightarrow> fault + TransactionLogIteratorImpl" where
  "Next W s = NextImpl (enough W s) W s False"

text \<open>
  A caller: \<open>Nexts W k\<close> calls \<^verbatim>\<open>Next()\<close> k times, \<open>run\<close> does so on a new
  iterator, \<open>observe\<close> reads \<^verbatim>\<open>Valid()\<close> and \<^verbatim>\<open>status()\<close>, and
  \<open>deliver\<close> reads \<^verbatim>\<open>Valid()\<close> and calls \<^verbatim>\<open>GetBatch()\<close>.
\<close>

fun Nexts :: "World \<Rightarrow> nat \<Rightarrow> TransactionLogIteratorImpl \<Rightarrow> fault + TransactionLogIteratorImpl" where
  "Nexts W 0 s = Inr s"
| "Nexts W (Suc k) s = (case Next W s of Inl f \<Rightarrow> Inl f | Inr s' \<Rightarrow> Nexts W k s')"

definition run :: "World \<Rightarrow> string \<Rightarrow> SequenceNumber \<Rightarrow> LogFile list \<Rightarrow> nat
    \<Rightarrow> fault + TransactionLogIteratorImpl" where
  "run W d seq fs k = (case NewIterator W d seq fs of Inl f \<Rightarrow> Inl f | Inr s \<Rightarrow> Nexts W k s)"

definition observe :: "fault + TransactionLogIteratorImpl \<Rightarrow> fault + (bool \<times> Status)" where
  "observe x = (case x of Inl f \<Rightarrow> Inl f | Inr s \<Rightarrow> Inr (Valid s, status s))"

definition deliver :: "fault + TransactionLogIteratorImpl \<Rightarrow> fault + (bool \<times> BatchResult)" where
  "deliver x = (case x of Inl f \<Rightarrow> Inl f
     | Inr s \<Rightarrow> (case GetBatch s of Inl f \<Rightarrow> Inl f | Inr (b, s') \<Rightarrow> Inr (Valid s, b)))"

subsection \<open>Example worlds\<close>

definition batch_record :: "SequenceNumber \<Rightarrow> SequenceNumber \<Rightarrow> Slice" where
  "batch_record a c = \<lparr>slice_size = 12, Sequence = a, Count = c\<rparr>"

text \<open>A disk given by the paths that exist, and the last sequence of the writer.\<close>

definition example_world :: "(string \<times> Slice list) list \<Rightarrow> SequenceNumber \<Rightarrow> World" where
  "example_world disk ls =
     \<lparr>LogFileName = (\<lambda>d n. d @ ''/'' @ replicate (unat n) (CHR ''I'') @ ''.log''),
      ArchivedLogFileName = (\<lambda>d n. d @ ''/archive/'' @ replicate (unat n) (CHR ''I'') @ ''.log''),
      NewSequentialFile = (\<lambda>p. case map_of disk p of
                                   None \<Rightarrow> Inl (kIOError, ''No such file or directory'')
                                 | Some recs \<Rightarrow> Inr recs),
      LastSequence = ls\<rparr>"

definition live_file :: "64 word \<Rightarrow> SequenceNumber \<Rightarrow> LogFile" where
  "live_file n start =
     \<lparr>LogNumber = n, Type = kAliveLogFile, StartSequence = start, SizeFileBytes = 0\<rparr>"

definition archived_file :: "64 word \<Rightarrow> SequenceNumber \<Rightarrow> LogFile" where
  "archived_file n start =
     \<lparr>LogNumber = n, Type = kArchivedLogFile, StartSequence = start, SizeFileBytes = 0\<rparr>"

text \<open>One log with the batches (1,1) and (3,1): sequence 2 is missing.\<close>

definition gap_world :: "SequenceNumber \<Rightarrow> World" where
  "gap_world ls = example_world [(''db/I.log'', [batch_record 1 1, batch_record 3 1])] ls"

text \<open>Log 1 holds the batch (1,1); log 2 is in the file list but not on the disk.\<close>

definition lost_world :: "SequenceNumber \<Rightarrow> World" where
  "lost_world ls = example_world [(''db/I.log'', [batch_record 1 1])] ls"

text \<open>Log 1 has been moved to the archive directory.\<close>

definition archive_world :: World where
  "archive_world =
     example_world [(''db/archive/I.log'', [batch_record 1 2, batch_record 3 1])] 3"

text \<open>One log with the batch (1,2), and the iterator positioned on that batch.\<close>

definition behind_world :: "SequenceNumber \<Rightarrow> World" where
  "behind_world ls = example_world [(''db/I.log'', [batch_record 1 2])] ls"

definition behind_state :: TransactionLogIteratorImpl where
  "behind_state =
     \<lparr>dir = ''db'', startingSequenceNumber = 1, files = [live_file 1 1], started = True,
      isValid = True, currentStatus = OK, currentFileIndex = 0,
      currentBatch = Some (batch_record 1 2),
      currentLogReader = Some \<lparr>pending = [], eof = False\<rparr>,
      currentBatchSeq = 1, currentLastSeq = 2\<rparr>"

text \<open>The log with the batches (1,1), (1,1), (2,1), after the second record has been read.\<close>

definition dup_world :: World where
  "dup_world =
     example_world [(''db/I.log'', [batch_record 1 1, batch_record 1 1, batch_record 2 1])] 2"

definition dup_state :: TransactionLogIteratorImpl where
  "dup_state =
     \<lparr>dir = ''db'', startingSequenceNumber = 1, files = [live_file 1 1], started = True,
      isValid = False, currentStatus = OK, currentFileIndex = 0,
      currentBatch = Some (batch_record 1 1),
      currentLogReader = Some \<lparr>pending = [batch_record 2 1], eof = False\<rparr>,
      currentBatchSeq = 1, currentLastSeq = 1\<rparr>"

text \<open>
  Two logs, the second starting at sequence 3; the iterator is in the second log and has
  delivered sequence 1 only.
\<close>

definition step_world :: World where
  "step_world =
     example_world [(''db/I.log'', [batch_record 1 1, batch_record 2 1]),
                    (''db/II.log'', [batch_record 3 1])] 3"

definition step_state :: TransactionLogIteratorImpl where
  "step_state =
     \<lparr>dir = ''db'', startingSequenceNumber = 1, files = [live_file 1 1, live_file 2 3],
      started = True, isValid = False, currentStatus = OK, currentFileIndex = 1,
      currentBatch = Some (batch_record 1 1),
      currentLogReader = Some \<lparr>pending = [], eof = False\<rparr>,
      currentBatchSeq = 1, currentLastSeq = 1\<rparr>"

text \<open>The iterator of \<open>gap_world\<close> when \<^verbatim>\<open>UpdateCurrentWriteBatch\<close> starts the reseek.\<close>

definition gap_seek_state :: TransactionLogIteratorImpl where
  "gap_seek_state =
     \<lparr>dir = ''db'', startingSequenceNumber = 2, files = [live_file 1 1], started = True,
      isValid = False, currentStatus = STATUS kNotFound ''Gap in sequence numbers'',
      currentFileIndex = 0, currentBatch = Some (batch_record 1 1),
      currentLogReader = Some \<lparr>pending = [], eof = False\<rparr>,
      currentBatchSeq = 1, currentLastSeq = 1\<rparr>"

text \<open>One log with the batches (1,2) and (3,1), and the iterator after its construction.\<close>

definition clean_world :: World where
  "clean_world = example_world [(''db/I.log'', [batch_record 1 2, batch_record 3 1])] 3"

definition clean_state :: TransactionLogIteratorImpl where
  "clean_state =
     \<lparr>dir = ''db'', startingSequenceNumber = 1, files = [live_file 1 1], started = True,
      isValid = True, currentStatus = OK, currentFileIndex = 0,
      currentBatch = Some (batch_record 1 2),
      currentLogReader = Some \<lparr>pending = [batch_record 3 1], eof = False\<rparr>,
      currentBatchSeq = 1, currentLastSeq = 2\<rparr>"

subsection \<open>Predicates on states\<close>

text \<open>
  \<open>ensures I G x\<close>: the result \<open>x\<close> of a call is a state that satisfies \<open>I\<close>, or a
  fault that satisfies \<open>G\<close>.
\<close>

definition ensures :: "(TransactionLogIteratorImpl \<Rightarrow> bool) \<Rightarrow> (fault \<Rightarrow> bool)
    \<Rightarrow> fault + TransactionLogIteratorImpl \<Rightarrow> bool" where
  "ensures I G x = (case x of Inl f \<Rightarrow> G f | Inr s' \<Rightarrow> I s')"

text \<open>
  The log files hold batches of the writer only: the range of every batch, in the files
  of the list and in the open reader, ends at or before the last sequence.
\<close>

definition in_range :: "World \<Rightarrow> Slice \<Rightarrow> bool" where
  "in_range W r = (Sequence r + Count r - 1 \<le> LastSequence W)"

definition committed :: "World \<Rightarrow> TransactionLogIteratorImpl \<Rightarrow> bool" where
  "committed W s =
     (list_all (\<lambda>f. case OpenLogFile W (dir s) f of
                      Inl e \<Rightarrow> True | Inr recs \<Rightarrow> list_all (in_range W) recs) (files s)
    \<and> (case currentLogReader s of
          None \<Rightarrow> True | Some rd \<Rightarrow> list_all (in_range W) (pending rd)))"

definition within :: "World \<Rightarrow> TransactionLogIteratorImpl \<Rightarrow> bool" where
  "within W s = (committed W s \<and> currentLastSeq s \<le> LastSequence W)"

subsection \<open>Callers\<close>

text \<open>
  A caller that mixes \<^verbatim>\<open>Next()\<close> and \<^verbatim>\<open>GetBatch()\<close> in any order. Every call has
  a world of its own: the last sequence of the writer and the files on the disk may
  change between two calls. \<open>run_calls\<close> does so on a new iterator.
\<close>

datatype call = CallNext | CallGetBatch

fun calls :: "(World \<times> call) list \<Rightarrow> TransactionLogIteratorImpl
    \<Rightarrow> fault + TransactionLogIteratorImpl" where
  "calls [] s = Inr s"
| "calls ((W, CallNext) # cs) s = (case Next W s of Inl f \<Rightarrow> Inl f | Inr s' \<Rightarrow> calls cs s')"
| "calls ((W, CallGetBatch) # cs) s =
     (case GetBatch s of Inl f \<Rightarrow> Inl f | Inr (b, s') \<Rightarrow> calls cs s')"

definition run_calls :: "World \<Rightarrow> string \<Rightarrow> SequenceNumber \<Rightarrow> LogFile list
    \<Rightarrow> (World \<times> call) list \<Rightarrow> fault + TransactionLogIteratorImpl" where
  "run_calls W d seq fs cs =
     (case NewIterator W d seq fs of Inl f \<Rightarrow> Inl f | Inr s \<Rightarrow> calls cs s)"

text \<open>
  \<open>Nexts_in Ws\<close>: one \<^verbatim>\<open>Next()\<close> in each world of \<open>Ws\<close>. \<open>waits_started Ws s\<close>:
  every one of these calls but the last returns with the iterator started and without a
  batch, so that the caller has nothing to fetch and calls \<^verbatim>\<open>Next()\<close> again.
\<close>

fun Nexts_in :: "World list \<Rightarrow> TransactionLogIteratorImpl
    \<Rightarrow> fault + TransactionLogIteratorImpl" where
  "Nexts_in [] s = Inr s"
| "Nexts_in (W # Ws) s = (case Next W s of Inl f \<Rightarrow> Inl f | Inr s' \<Rightarrow> Nexts_in Ws s')"

fun waits_started :: "World list \<Rightarrow> TransactionLogIteratorImpl \<Rightarrow> bool" where
  "waits_started [] s = True"
| "waits_started [W] s = True"
| "waits_started (W # W' # Ws) s =
     (case Next W s of
        Inl f \<Rightarrow> False
      | Inr s' \<Rightarrow> started s' \<and> \<not> isValid s' \<and> waits_started (W' # Ws) s')"

text \<open>
  Log 1 holds the batch (1,1) and log 3 the batch (2,1); log 2 is in the file list but
  not on the disk. \<open>skip_state\<close> is the iterator after its construction.
\<close>

definition skip_world :: World where
  "skip_world =
     example_world [(''db/I.log'', [batch_record 1 1]), (''db/III.log'', [batch_record 2 1])] 2"

definition skip_files :: "LogFile list" where
  "skip_files = [live_file 1 1, live_file 2 2, live_file 3 2]"

definition skip_state :: TransactionLogIteratorImpl where
  "skip_state =
     \<lparr>dir = ''db'', startingSequenceNumber = 1, files = skip_files, started = True,
      isValid = True, currentStatus = OK, currentFileIndex = 0,
      currentBatch = Some (batch_record 1 1),
      currentLogReader = Some \<lparr>pending = [], eof = False\<rparr>,
      currentBatchSeq = 1, currentLastSeq = 1\<rparr>"

subsection \<open>The current batch, and the end of the file list\<close>

text \<open>
  The two sequence members agree with the batch that \<^verbatim>\<open>currentBatch_\<close> holds.
\<close>

definition batch_consistent :: "TransactionLogIteratorImpl \<Rightarrow> bool" where
  "batch_consistent s =
     (case currentBatch s of
        None \<Rightarrow> True
      | Some p \<Rightarrow> currentBatchSeq s = Sequence p \<and> currentLastSeq s = Sequence p + Count p - 1)"

text \<open>
  \<open>ran_off W s s'\<close>: from \<open>s\<close> the advance has run past the last file and ended in
  \<open>s'\<close>. \<open>past_last W s\<close>: a started iterator stands at the last file, nothing can
  be read from it any more, and \<^verbatim>\<open>currentLastSeq_\<close> is not the last sequence.
\<close>

definition ran_off :: "World \<Rightarrow> TransactionLogIteratorImpl \<Rightarrow> TransactionLogIteratorImpl \<Rightarrow> bool" where
  "ran_off W s s' =
     (\<not> isValid s' \<and> started s' = started s \<and> currentLastSeq s' = currentLastSeq s
      \<and> files s' = files s \<and> currentFileIndex s' = currentFileIndex s
      \<and> currentStatus s' = (if currentLastSeq s = LastSequence W then OK
                              else STATUS kCorruption ''NO MORE DATA LEFT'')
      \<and> (case currentLogReader s' of
            None \<Rightarrow> False
          | Some rd \<Rightarrow> LastSequence W \<le> currentLastSeq s \<or> pending rd = []))"

definition past_last :: "World \<Rightarrow> TransactionLogIteratorImpl \<Rightarrow> bool" where
  "past_last W s =
     (started s \<and> currentLastSeq s \<noteq> LastSequence W
      \<and> \<not> currentFileIndex s < size_minus_1 (files s)
      \<and> (case currentLogReader s of
            None \<Rightarrow> False
          | Some rd \<Rightarrow> LastSequence W \<le> currentLastSeq s
                       \<or> list_all (\<lambda>r. slice_size r < 12) (pending rd)))"

text \<open>
  A call of \<^verbatim>\<open>Next()\<close> on a started iterator that returns with the iterator started:
  either it has a batch, which starts after the last sequence seen, or it has none and
  the last sequence seen is as before.
\<close>

definition advanced :: "TransactionLogIteratorImpl \<Rightarrow> TransactionLogIteratorImpl \<Rightarrow> bool" where
  "advanced s s' =
     (if isValid s' then currentBatchSeq s' = currentLastSeq s + 1
      else currentLastSeq s' = currentLastSeq s)"

subsection \<open>Weights\<close>

text \<open>
  The weight of all files of the list, and of the files after the current one; the budget
  \<open>enough\<close> is the weight of the reader, three times the first, and ten.
\<close>

definition total_weight :: "World \<Rightarrow> TransactionLogIteratorImpl \<Rightarrow> nat" where
  "total_weight W s = sum_list (map (file_weight W (dir s)) (files s))"

definition rest_weight :: "World \<Rightarrow> TransactionLogIteratorImpl \<Rightarrow> nat" where
  "rest_weight W s =
     sum_list (map (file_weight W (dir s)) (drop (Suc (currentFileIndex s)) (files s)))"

section \<open>Properties\<close>

subsection \<open>Basic facts\<close>

lemma RestrictedRead_SomeE:
  assumes "RestrictedRead W s = Inr (Some r, s1)"
  obtains rd rs where "currentLogReader s = Some rd" "pending rd = r # rs"
    "s1 = s\<lparr>currentLogReader := Some (rd\<lparr>pending := rs\<rparr>)\<rparr>"
    "currentLastSeq s < LastSequence W"
  using assms
  by (auto simp: RestrictedRead_def ReadRecord_def not_le split: if_splits option.splits list.splits)

lemma RestrictedRead_NoneE:
  assumes "RestrictedRead W s = Inr (None, s1)"
  obtains "s1 = s" "LastSequence W \<le> currentLastSeq s"
  | rd where "currentLogReader s = Some rd" "pending rd = []"
    "s1 = s\<lparr>currentLogReader := Some (rd\<lparr>eof := True\<rparr>)\<rparr>"
    "currentLastSeq s < LastSequence W"
  using assms
  by (auto simp: RestrictedRead_def ReadRecord_def not_le split: if_splits option.splits list.splits)

lemma RestrictedRead_fault: "RestrictedRead W s = Inl f \<Longrightarrow> f = NullReader"
  by (auto simp: RestrictedRead_def ReadRecord_def split: if_splits option.splits list.splits)

lemma OpenLogReader_cases:
  assumes "OpenLogReader W s f = (st, s1)"
  obtains c m where "OpenLogFile W (dir s) f = Inl (c, m)" "st = STATUS c m" "s1 = s"
  | recs where "OpenLogFile W (dir s) f = Inr recs" "st = OK"
      "s1 = s\<lparr>currentLogReader := Some \<lparr>pending = recs, eof = False\<rparr>\<rparr>"
  using assms by (auto simp: OpenLogReader_def split: sum.splits)

lemma AcceptBatch_InrE:
  assumes "AcceptBatch W s b = Inr s'"
  obtains "s' = s\<lparr>currentBatchSeq := Sequence b, currentLastSeq := Sequence b + Count b - 1,
      currentBatch := Some b, isValid := True, currentStatus := OK\<rparr>"
    "Sequence b + Count b - 1 \<le> LastSequence W"
  using assms by (auto simp: AcceptBatch_def Let_def split: if_splits)

lemma AcceptBatch_fault: "AcceptBatch W s b = Inl f \<Longrightarrow> f = AssertionFailed 268"
  by (auto simp: AcceptBatch_def Let_def split: if_splits)

lemma Update_not_started:
  "\<not> started s \<Longrightarrow> UpdateCurrentWriteBatch (Suc n) W s b = AcceptBatch W s b"
  by (simp add: Let_def)

lemma enough_ge: "reader_weight s + 10 \<le> enough W s"
  by (simp add: enough_def)

subsection \<open>Restricted reading\<close>

text \<open>
  C6. When \<^verbatim>\<open>currentLastSeq_\<close> has reached \<^verbatim>\<open>versions_->LastSequence()\<close>,
  \<^verbatim>\<open>RestrictedRead\<close> returns false and leaves the iterator, and so the reader, as it
  was, in every state (also one without a reader).
\<close>

theorem RestrictedRead_at_last_sequence:
  "LastSequence W \<le> currentLastSeq s \<Longrightarrow> RestrictedRead W s = Inr (None, s)"
  by (simp add: RestrictedRead_def)

theorem RestrictedRead_at_last_sequence_witness:
  "LastSequence (behind_world 2) \<le> currentLastSeq behind_state
   \<and> RestrictedRead (behind_world 2) behind_state = Inr (None, behind_state)"
proof -
  have h: "LastSequence (behind_world 2) \<le> currentLastSeq behind_state"
    by (simp add: behind_world_def example_world_def behind_state_def)
  show ?thesis using h RestrictedRead_at_last_sequence[OF h] by simp
qed

subsection \<open>Opening files\<close>

text \<open>
  C8. An archived file is opened at its archived path only. A live file is opened at its
  live path and, when that fails with whatever error, at its archived path; so a live
  file that is missing at the live path and present at the archived one is opened.
\<close>

theorem OpenLogFile_archive_fallback:
  "(Type f = kArchivedLogFile \<longrightarrow>
      OpenLogFile W d f = NewSequentialFile W (ArchivedLogFileName W d (LogNumber f)))
   \<and> (Type f = kAliveLogFile \<longrightarrow>
        (\<forall>recs. NewSequentialFile W (LogFileName W d (LogNumber f)) = Inr recs
            \<longrightarrow> OpenLogFile W d f = Inr recs)
      \<and> (\<forall>e. NewSequentialFile W (LogFileName W d (LogNumber f)) = Inl e
            \<longrightarrow> OpenLogFile W d f
                = NewSequentialFile W (ArchivedLogFileName W d (LogNumber f))))"
  by (simp add: OpenLogFile_def)

theorem OpenLogFile_archive_fallback_witness:
  "Type (live_file 1 1) = kAliveLogFile
   \<and> NewSequentialFile archive_world (LogFileName archive_world ''db'' (LogNumber (live_file 1 1)))
       = Inl (kIOError, ''No such file or directory'')
   \<and> OpenLogFile archive_world ''db'' (live_file 1 1) = Inr [batch_record 1 2, batch_record 3 1]
   \<and> Type (archived_file 1 1) = kArchivedLogFile
   \<and> OpenLogFile archive_world ''db'' (archived_file 1 1) = Inr [batch_record 1 2, batch_record 3 1]"
proof -
  have a: "Type (live_file 1 1) = kAliveLogFile" by (simp add: live_file_def)
  have b: "NewSequentialFile archive_world
             (LogFileName archive_world ''db'' (LogNumber (live_file 1 1)))
           = Inl (kIOError, ''No such file or directory'')"
    by code_simp
  have c: "NewSequentialFile archive_world (ArchivedLogFileName archive_world ''db'' 1)
           = Inr [batch_record 1 2, batch_record 3 1]"
    by code_simp
  have n: "LogNumber (live_file 1 1) = 1" "LogNumber (archived_file 1 1) = 1"
    by (simp_all add: live_file_def archived_file_def)
  have d: "Type (archived_file 1 1) = kArchivedLogFile" by (simp add: archived_file_def)
  have 1: "OpenLogFile archive_world ''db'' (live_file 1 1)
           = NewSequentialFile archive_world (ArchivedLogFileName archive_world ''db'' 1)"
    using OpenLogFile_archive_fallback[of "live_file 1 1" archive_world "''db''"] a b n
    by simp
  have 2: "OpenLogFile archive_world ''db'' (archived_file 1 1)
           = NewSequentialFile archive_world (ArchivedLogFileName archive_world ''db'' 1)"
    using OpenLogFile_archive_fallback[of "archived_file 1 1" archive_world "''db''"] d n
    by simp
  show ?thesis using a b c d 1 2 by simp
qed

subsection \<open>Running off the file list\<close>

lemma NextInner_past_last:
  "currentLogReader s = Some rd \<Longrightarrow>
   LastSequence W \<le> currentLastSeq s \<or> (\<forall>r\<in>set (pending rd). slice_size r < 12) \<Longrightarrow>
   \<not> currentFileIndex s < size_minus_1 (files s) \<Longrightarrow>
   length (pending rd) < n \<Longrightarrow>
   \<exists>s'. NextInner n W s internal = Inr s' \<and> ran_off W s s'"
proof (induction n arbitrary: s rd)
  case 0
  then show ?case by simp
next
  case (Suc n)
  show ?case
  proof (cases "LastSequence W \<le> currentLastSeq s")
    case True
    then have "RestrictedRead W s = Inr (None, s)" by (simp add: RestrictedRead_def)
    then show ?thesis using Suc.prems(1,3) True by (simp add: Let_def ran_off_def)
  next
    case False
    then have small: "\<forall>r\<in>set (pending rd). slice_size r < 12" using Suc.prems(2) by blast
    show ?thesis
    proof (cases "pending rd")
      case Nil
      then have "RestrictedRead W s = Inr (None, s\<lparr>currentLogReader := Some (rd\<lparr>eof := True\<rparr>)\<rparr>)"
        using False Suc.prems(1) by (simp add: RestrictedRead_def ReadRecord_def)
      then show ?thesis using Suc.prems(3) Nil by (simp add: Let_def ran_off_def)
    next
      case (Cons r rs)
      let ?s1 = "s\<lparr>currentLogReader := Some (rd\<lparr>pending := rs\<rparr>)\<rparr>"
      have rr: "RestrictedRead W s = Inr (Some r, ?s1)"
        using False Suc.prems(1) Cons by (simp add: RestrictedRead_def ReadRecord_def)
      have r: "slice_size r < 12" using small Cons by simp
      have "\<exists>s'. NextInner n W ?s1 internal = Inr s' \<and> ran_off W ?s1 s'"
        by (rule Suc.IH[where rd="rd\<lparr>pending := rs\<rparr>"]) (use Suc.prems small Cons in auto)
      then show ?thesis using rr r by (auto simp: ran_off_def split: option.splits)
    qed
  qed
qed



subsection \<open>The two validity flags\<close>

text \<open>
  C9. \<^verbatim>\<open>GetBatch()\<close> asserts \<^verbatim>\<open>isValid_\<close> only. On the log with the batches (1,1)
  and (3,1), the first \<^verbatim>\<open>Next()\<close> finds the gap and its strict reseek fails: the
  iterator is then not \<^verbatim>\<open>Valid()\<close>, and \<^verbatim>\<open>GetBatch()\<close> still passes its assertion and
  returns the batch decoded last.
\<close>

theorem GetBatch_passes_when_not_Valid:
  "deliver (run (gap_world 3) ''db'' 1 [live_file 1 1] 1)
     = Inr (False, \<lparr>sequence = 3, writeBatchPtr = Some (batch_record 3 1)\<rparr>)"
  by code_simp

lemma observe_InrD:
  "observe x = Inr (v, st) \<Longrightarrow> \<exists>s. x = Inr s \<and> Valid s = v \<and> currentStatus s = st"
  by (cases x) (auto simp: observe_def status_def)

subsection \<open>The reseek after a gap\<close>

lemma SeekLoop_strict_started:
  "\<not> started s \<Longrightarrow> SeekLoop n W s True = Inr s' \<Longrightarrow> started s' \<Longrightarrow>
   currentStatus s' = OK \<and> isValid s' \<and> currentBatchSeq s' = startingSequenceNumber s"
proof (induction n arbitrary: s)
  case 0
  then show ?case by simp
next
  case (Suc n)
  show ?case
  proof (cases "RestrictedRead W s")
    case (Inl f)
    then show ?thesis using Suc.prems by simp
  next
    case (Inr p)
    obtain ro s1 where p: "p = (ro, s1)" by (cases p)
    show ?thesis
    proof (cases ro)
      case None
      then show ?thesis using Suc.prems Inr p by (auto elim!: RestrictedRead_NoneE)
    next
      case (Some r)
      have rr: "RestrictedRead W s = Inr (Some r, s1)" using Inr p Some by simp
      have s1: "\<not> started s1" "startingSequenceNumber s1 = startingSequenceNumber s"
        using rr Suc.prems(1) by (auto elim!: RestrictedRead_SomeE)
      show ?thesis
      proof (cases "slice_size r < 12")
        case True
        then have "SeekLoop n W s1 True = Inr s'" using Suc.prems(2) rr by simp
        then show ?thesis using Suc.IH[OF s1(1) _ Suc.prems(3)] s1(2) by simp
      next
        case False
        obtain m where m: "n = Suc m"
          using Suc.prems(2) rr False by (cases n) auto
        obtain s2 where s2: "AcceptBatch W s1 r = Inr s2"
          using Suc.prems(2) rr False m s1(1) by (auto simp: Let_def split: sum.splits)
        have s2p: "\<not> started s2" "startingSequenceNumber s2 = startingSequenceNumber s"
          "currentStatus s2 = OK"
          using s2 s1 by (auto elim!: AcceptBatch_InrE)
        have u: "UpdateCurrentWriteBatch n W s1 r = Inr s2"
          using s2 m s1(1) by (simp add: Let_def)
        show ?thesis
        proof (cases "startingSequenceNumber s2 \<le> currentLastSeq s2")
          case True
          then show ?thesis using Suc.prems(2,3) rr False u s2p
            by (auto split: if_splits)
        next
          case F2: False
          then have "SeekLoop n W (s2\<lparr>isValid := False\<rparr>) True = Inr s'"
            using Suc.prems(2) rr False u by simp
          then show ?thesis
            using Suc.IH[of "s2\<lparr>isValid := False\<rparr>"] s2p Suc.prems(3) by simp
        qed
      qed
    qed
  qed
qed

lemma Seek_strict_started:
  assumes "SeekToStartSequence n W s idx True = Inr s'" "started s'"
  shows "currentStatus s' = OK \<and> isValid s' \<and> currentBatchSeq s' = startingSequenceNumber s"
proof -
  obtain m where m: "n = Suc m" using assms(1) by (cases n) auto
  let ?s1 = "s\<lparr>started := False, isValid := False\<rparr>"
  have idx: "idx < length (files s)"
    using assms m by (auto simp: Let_def split: if_splits)
  obtain st s2 where o: "OpenLogReader W ?s1 (files s ! idx) = (st, s2)"
    by (cases "OpenLogReader W ?s1 (files s ! idx)")
  have s2: "\<not> started s2" "startingSequenceNumber s2 = startingSequenceNumber s"
    using o by (auto elim!: OpenLogReader_cases)
  have st: "ok st" using assms m idx o s2 by (auto simp: Let_def split: if_splits)
  have "SeekLoop m W s2 True = Inr s'"
    using assms(1) m idx o st by (simp add: Let_def)
  then show ?thesis using SeekLoop_strict_started[OF s2(1) _ assms(2)] s2(2) by simp
qed

text \<open>
  C4. A started iterator reads a batch whose first sequence is not
  \<^verbatim>\<open>currentLastSeq_ + 1\<close>. Then \<^verbatim>\<open>UpdateCurrentWriteBatch\<close> is the strict seek
  (\<open>strict = True\<close>) from the reseek index, in the state where
  \<^verbatim>\<open>startingSequenceNumber_\<close> is the expected sequence and the status is
  NotFound("Gap in sequence numbers"); the reseek index is one file back exactly when the
  expected sequence is below the start sequence of the current file and the index is not 0.
  When the call returns with the iterator started, that is when the strict seek has
  accepted its batch, the status is OK and the batch starts at the expected sequence.
\<close>

theorem gap_reseek:
  assumes "started s" and "Sequence b \<noteq> currentLastSeq s + 1"
    and "currentFileIndex s < length (files s)"
  shows "UpdateCurrentWriteBatch (Suc n) W s b =
           SeekToStartSequence n W
             (s\<lparr>currentFileIndex :=
                   (if currentLastSeq s + 1 < StartSequence (files s ! currentFileIndex s)
                       \<and> currentFileIndex s \<noteq> 0
                    then currentFileIndex s - 1 else currentFileIndex s),
                 startingSequenceNumber := currentLastSeq s + 1,
                 currentStatus := STATUS kNotFound ''Gap in sequence numbers''\<rparr>)
             (if currentLastSeq s + 1 < StartSequence (files s ! currentFileIndex s)
                 \<and> currentFileIndex s \<noteq> 0
              then currentFileIndex s - 1 else currentFileIndex s)
             True
       \<and> (\<forall>s'. UpdateCurrentWriteBatch (Suc n) W s b = Inr s' \<and> started s'
              \<longrightarrow> currentStatus s' = OK \<and> currentBatchSeq s' = currentLastSeq s + 1)"
proof -
  let ?i = "if currentLastSeq s + 1 < StartSequence (files s ! currentFileIndex s)
                 \<and> currentFileIndex s \<noteq> 0
              then currentFileIndex s - 1 else currentFileIndex s"
  let ?s3 = "s\<lparr>currentFileIndex := ?i, startingSequenceNumber := currentLastSeq s + 1,
                 currentStatus := STATUS kNotFound ''Gap in sequence numbers''\<rparr>"
  have 1: "UpdateCurrentWriteBatch (Suc n) W s b = SeekToStartSequence n W ?s3 ?i True"
    using assms by (simp add: Let_def IsBatchExpected_def)
  have 2: "currentStatus s' = OK \<and> currentBatchSeq s' = currentLastSeq s + 1"
    if "UpdateCurrentWriteBatch (Suc n) W s b = Inr s'" "started s'" for s'
    using Seek_strict_started[of n W ?s3 ?i s'] that 1 by simp
  show ?thesis using 1 2 by blast
qed

theorem gap_reseek_witness:
  "started dup_state \<and> Sequence (batch_record 1 1) \<noteq> currentLastSeq dup_state + 1
   \<and> currentFileIndex dup_state < length (files dup_state)
   \<and> (\<exists>s'. UpdateCurrentWriteBatch (Suc 5) dup_world dup_state (batch_record 1 1) = Inr s'
          \<and> started s' \<and> currentStatus s' = OK \<and> currentBatchSeq s' = 2)
   \<and> started step_state \<and> Sequence (batch_record 3 1) \<noteq> currentLastSeq step_state + 1
   \<and> currentFileIndex step_state < length (files step_state)
   \<and> (\<exists>s'. UpdateCurrentWriteBatch (Suc 5) step_world step_state (batch_record 3 1) = Inr s'
          \<and> started s' \<and> currentStatus s' = OK \<and> currentBatchSeq s' = 2)"
proof -
  have h1: "started dup_state"
    and h2: "Sequence (batch_record 1 1) \<noteq> currentLastSeq dup_state + 1"
    and h3: "currentFileIndex dup_state < length (files dup_state)"
    by (simp_all add: dup_state_def batch_record_def)
  have k1: "started step_state"
    and k2: "Sequence (batch_record 3 1) \<noteq> currentLastSeq step_state + 1"
    and k3: "currentFileIndex step_state < length (files step_state)"
    by (simp_all add: step_state_def batch_record_def)
  have l: "currentLastSeq dup_state + 1 = 2" "currentLastSeq step_state + 1 = 2"
    by (simp_all add: dup_state_def step_state_def)
  have "observe (UpdateCurrentWriteBatch (Suc 5) dup_world dup_state (batch_record 1 1))
          = Inr (True, OK)"
    by code_simp
  then obtain s1 where s1: "UpdateCurrentWriteBatch (Suc 5) dup_world dup_state (batch_record 1 1) = Inr s1"
      "started s1"
    by (auto dest!: observe_InrD simp: Valid_def)
  have a: "currentStatus s1 = OK \<and> currentBatchSeq s1 = 2"
    using gap_reseek[OF h1 h2 h3, of 5 dup_world] s1 l by simp
  have "observe (UpdateCurrentWriteBatch (Suc 5) step_world step_state (batch_record 3 1))
          = Inr (True, OK)"
    by code_simp
  then obtain s2 where s2: "UpdateCurrentWriteBatch (Suc 5) step_world step_state (batch_record 3 1) = Inr s2"
      "started s2"
    by (auto dest!: observe_InrD simp: Valid_def)
  have b: "currentStatus s2 = OK \<and> currentBatchSeq s2 = 2"
    using gap_reseek[OF k1 k2 k3, of 5 step_world] s2 l by simp
  show ?thesis using h1 h2 h3 k1 k2 k3 s1 s2 a b by blast
qed

subsection \<open>The strict seek that misses\<close>

lemma SeekLoop_strict_gap:
  assumes "\<not> started s" and "currentLogReader s = Some rd" and "pending rd = pre @ r # post"
    and "currentLastSeq s < LastSequence W"
    and "startingSequenceNumber s \<le> LastSequence W"
    and "\<forall>p\<in>set pre. slice_size p < 12 \<or> Sequence p + Count p - 1 < startingSequenceNumber s"
    and "12 \<le> slice_size r"
    and "startingSequenceNumber s \<le> Sequence r + Count r - 1"
    and "Sequence r + Count r - 1 \<le> LastSequence W"
    and "Sequence r \<noteq> startingSequenceNumber s"
    and "length pre + 2 \<le> n"
  shows "\<exists>s'. SeekLoop n W s True = Inr s' \<and> currentStatus s' = gap_status
           \<and> \<not> started s' \<and> isValid s'"
  using assms
proof (induction pre arbitrary: s rd n)
  case Nil
  obtain m where m: "n = Suc (Suc m)" using Nil.prems(11) by (cases n; cases "n - 1") auto
  let ?s1 = "s\<lparr>currentLogReader := Some (rd\<lparr>pending := post\<rparr>)\<rparr>"
  have rr: "RestrictedRead W s = Inr (Some r, ?s1)"
    using Nil.prems by (simp add: RestrictedRead_def ReadRecord_def not_le[symmetric])
  have u: "UpdateCurrentWriteBatch (Suc m) W ?s1 r = AcceptBatch W ?s1 r"
    using Nil.prems(1) by (simp add: Let_def)
  show ?case
    using Nil.prems rr u by (simp add: m AcceptBatch_def Let_def del: UpdateCurrentWriteBatch.simps)
next
  case (Cons p pre)
  obtain m where m: "n = Suc (Suc m)" using Cons.prems(11) by (cases n; cases "n - 1") auto
  let ?s1 = "s\<lparr>currentLogReader := Some (rd\<lparr>pending := pre @ r # post\<rparr>)\<rparr>"
  have rr: "RestrictedRead W s = Inr (Some p, ?s1)"
    using Cons.prems by (simp add: RestrictedRead_def ReadRecord_def not_le[symmetric])
  show ?case
  proof (cases "slice_size p < 12")
    case True
    have "\<exists>s'. SeekLoop (Suc m) W ?s1 True = Inr s' \<and> currentStatus s' = gap_status
           \<and> \<not> started s' \<and> isValid s'"
      by (rule Cons.IH[where rd="rd\<lparr>pending := pre @ r # post\<rparr>"])
         (use Cons.prems m in auto)
    moreover have "SeekLoop n W s True = SeekLoop (Suc m) W ?s1 True"
      unfolding m by (subst SeekLoop.simps(2)) (simp add: rr True del: SeekLoop.simps(2))
    ultimately show ?thesis by simp
  next
    case False
    then have lt: "Sequence p + Count p - 1 < startingSequenceNumber s"
      using Cons.prems(6) by auto
    then have le: "Sequence p + Count p - 1 \<le> LastSequence W"
      using Cons.prems(5) by simp
    have nle: "\<not> startingSequenceNumber s \<le> Sequence p + Count p - 1"
      using lt by simp
    let ?s2 = "?s1\<lparr>currentBatchSeq := Sequence p, currentLastSeq := Sequence p + Count p - 1,
      currentBatch := Some p, isValid := True, currentStatus := OK\<rparr>"
    have u: "UpdateCurrentWriteBatch (Suc m) W ?s1 p = Inr ?s2"
      using Cons.prems(1) le by (simp add: Let_def AcceptBatch_def)
    have "\<exists>s'. SeekLoop (Suc m) W (?s2\<lparr>isValid := False\<rparr>) True = Inr s'
           \<and> currentStatus s' = gap_status \<and> \<not> started s' \<and> isValid s'"
      by (rule Cons.IH[where rd="rd\<lparr>pending := pre @ r # post\<rparr>"])
         (use Cons.prems m lt in auto)
    moreover have "SeekLoop n W s True = SeekLoop (Suc m) W (?s2\<lparr>isValid := False\<rparr>) True"
      unfolding m
      by (subst SeekLoop.simps(2))
         (use rr False u nle in \<open>simp del: SeekLoop.simps(2) UpdateCurrentWriteBatch.simps\<close>)
    ultimately show ?thesis by simp
  qed
qed

text \<open>
  C5. A strict seek opens a file whose records are \<open>pre @ r # post\<close>: the records of
  \<open>pre\<close> are very small or end before \<^verbatim>\<open>startingSequenceNumber_\<close>, and \<open>r\<close> is the
  first batch whose last sequence reaches it. When \<open>r\<close> does not start at
  \<^verbatim>\<open>startingSequenceNumber_\<close>, the seek returns with the status
  Corruption("Gap in sequence number. Could not seek to required sequence number") and
  \<^verbatim>\<open>Valid()\<close> is false.
\<close>

theorem strict_seek_gap:
  assumes "idx < length (files s)"
    and "OpenLogFile W (dir s) (files s ! idx) = Inr (pre @ r # post)"
    and "currentLastSeq s < LastSequence W"
    and "startingSequenceNumber s \<le> LastSequence W"
    and "\<forall>p\<in>set pre. slice_size p < 12 \<or> Sequence p + Count p - 1 < startingSequenceNumber s"
    and "12 \<le> slice_size r"
    and "startingSequenceNumber s \<le> Sequence r + Count r - 1"
    and "Sequence r + Count r - 1 \<le> LastSequence W"
    and "Sequence r \<noteq> startingSequenceNumber s"
    and "length pre + 3 \<le> n"
  shows "\<exists>s'. SeekToStartSequence n W s idx True = Inr s' \<and> currentStatus s' = gap_status
           \<and> \<not> Valid s'"
proof -
  obtain m where m: "n = Suc m" "length pre + 2 \<le> m" using assms(10) by (cases n) auto
  let ?s2 = "s\<lparr>started := False, isValid := False,
                currentLogReader := Some \<lparr>pending = pre @ r # post, eof = False\<rparr>\<rparr>"
  have 1: "SeekToStartSequence n W s idx True = SeekLoop m W ?s2 True"
    using assms(1,2) by (simp add: m Let_def OpenLogReader_def)
  have "\<exists>s'. SeekLoop m W ?s2 True = Inr s' \<and> currentStatus s' = gap_status
           \<and> \<not> started s' \<and> isValid s'"
    by (rule SeekLoop_strict_gap[where rd="\<lparr>pending = pre @ r # post, eof = False\<rparr>"
          and pre=pre and r=r and post=post])
       (use assms m in auto)
  then show ?thesis using 1 by (auto simp: Valid_def)
qed

theorem strict_seek_gap_witness:
  "OpenLogFile (gap_world 3) (dir gap_seek_state) (files gap_seek_state ! 0)
     = Inr ([batch_record 1 1] @ batch_record 3 1 # [])
   \<and> startingSequenceNumber gap_seek_state \<le> Sequence (batch_record 3 1) + Count (batch_record 3 1) - 1
   \<and> Sequence (batch_record 3 1) \<noteq> startingSequenceNumber gap_seek_state
   \<and> observe (SeekToStartSequence 4 (gap_world 3) gap_seek_state 0 True) = Inr (False, gap_status)"
proof -
  have h1: "0 < length (files gap_seek_state)" by (simp add: gap_seek_state_def)
  have h2: "OpenLogFile (gap_world 3) (dir gap_seek_state) (files gap_seek_state ! 0)
     = Inr ([batch_record 1 1] @ batch_record 3 1 # [])"
    by code_simp
  have h3: "currentLastSeq gap_seek_state < LastSequence (gap_world 3)"
    and h4: "startingSequenceNumber gap_seek_state \<le> LastSequence (gap_world 3)"
    and h5: "\<forall>p\<in>set [batch_record 1 1]. slice_size p < 12
        \<or> Sequence p + Count p - 1 < startingSequenceNumber gap_seek_state"
    and h6: "12 \<le> slice_size (batch_record 3 1)"
    and h7: "startingSequenceNumber gap_seek_state
               \<le> Sequence (batch_record 3 1) + Count (batch_record 3 1) - 1"
    and h8: "Sequence (batch_record 3 1) + Count (batch_record 3 1) - 1 \<le> LastSequence (gap_world 3)"
    and h9: "Sequence (batch_record 3 1) \<noteq> startingSequenceNumber gap_seek_state"
    and h10: "length [batch_record 1 1] + 3 \<le> (4::nat)"
    by (simp_all add: gap_seek_state_def gap_world_def example_world_def batch_record_def)
  have "observe (SeekToStartSequence 4 (gap_world 3) gap_seek_state 0 True) = Inr (False, gap_status)"
    using strict_seek_gap[OF h1 h2 h3 h4 h5 h6 h7 h8 h9 h10]
    by (auto simp: observe_def status_def)
  then show ?thesis using h2 h7 h9 by blast
qed

subsection \<open>What every call preserves\<close>

lemma ensures_simps [simp]: "ensures I G (Inl f) = G f" "ensures I G (Inr s) = I s"
  by (simp_all add: ensures_def)

lemma preserved:
  fixes I :: "TransactionLogIteratorImpl \<Rightarrow> bool" and G :: "fault \<Rightarrow> bool"
  assumes c1: "\<And>s a. I s \<Longrightarrow> I (s\<lparr>started := a\<rparr>)"
    and c2: "\<And>s a. I s \<Longrightarrow> I (s\<lparr>isValid := a\<rparr>)"
    and c3: "\<And>s a. I s \<Longrightarrow> I (s\<lparr>currentStatus := a\<rparr>)"
    and c4: "\<And>s a. I s \<Longrightarrow> I (s\<lparr>currentFileIndex := a\<rparr>)"
    and c5: "\<And>s a. I s \<Longrightarrow> I (s\<lparr>startingSequenceNumber := a\<rparr>)"
    and rd: "\<And>s r s1. I s \<Longrightarrow> RestrictedRead W s = Inr (r, s1) \<Longrightarrow> I s1"
    and um: "\<And>s rd. I s \<Longrightarrow> currentLogReader s = Some rd
               \<Longrightarrow> I (s\<lparr>currentLogReader := Some (UnmarkEOF rd)\<rparr>)"
    and opn: "\<And>s i st s1. I s \<Longrightarrow> i < length (files s)
               \<Longrightarrow> OpenLogReader W s (files s ! i) = (st, s1) \<Longrightarrow> I s1"
    and acc: "\<And>s r s1. I s \<Longrightarrow> RestrictedRead W s = Inr (Some r, s1)
               \<Longrightarrow> ensures I G (AcceptBatch W s1 r)"
    and gf: "\<And>f. f \<noteq> AssertionFailed 268 \<Longrightarrow> G f"
  shows "(\<forall>s0 s r. I s0 \<longrightarrow> RestrictedRead W s0 = Inr (Some r, s)
            \<longrightarrow> ensures I G (UpdateCurrentWriteBatch n W s r))
       \<and> (\<forall>s i strict. I s \<longrightarrow> ensures I G (SeekToStartSequence n W s i strict))
       \<and> (\<forall>s strict. I s \<longrightarrow> ensures I G (SeekLoop n W s strict))
       \<and> (\<forall>s internal. I s \<longrightarrow> ensures I G (NextImpl n W s internal))
       \<and> (\<forall>s internal. I s \<longrightarrow> ensures I G (NextOuter n W s internal))
       \<and> (\<forall>s internal. I s \<longrightarrow> ensures I G (NextInner n W s internal))"
proof (induction n)
  case 0
  show ?case by (simp add: gf)
next
  case (Suc n)
  have g: "G OutOfFuel" "G NullReader" "G out_of_range" "G (AssertionFailed 182)"
       "G (AssertionFailed 193)" "G (AssertionFailed 195)"
    by (simp_all add: gf)
  have U: "ensures I G (UpdateCurrentWriteBatch (Suc n) W s r)"
    if "I s0" "RestrictedRead W s0 = Inr (Some r, s)" for s0 s r
  proof -
    have "I s" using that rd by blast
    then show ?thesis
      using Suc acc[OF that] by (auto simp: Let_def g c3 c4 c5)
  qed
  have S: "ensures I G (SeekToStartSequence (Suc n) W s i strict)" if "I s" for s i strict
  proof -
    have 1: "I (s\<lparr>started := False, isValid := False\<rparr>)" using that c1 c2 by simp
    show ?thesis
      using Suc 1 opn[OF 1, of i] by (auto simp: Let_def c3 split: prod.splits)
  qed
  have SL: "ensures I G (SeekLoop (Suc n) W s strict)" if "I s" for s strict
  proof (cases "RestrictedRead W s")
    case (Inl f)
    then show ?thesis using RestrictedRead_fault[OF Inl] by (simp add: g)
  next
    case (Inr p)
    obtain ro s1 where p: "p = (ro, s1)" by (cases p)
    have s1: "I s1" using rd[OF that] Inr p by simp
    show ?thesis
    proof (cases ro)
      case None
      then show ?thesis using Inr p s1 Suc by (auto simp: c3)
    next
      case (Some r)
      have "ensures I G (UpdateCurrentWriteBatch n W s1 r)"
        using Suc that Inr p Some by blast
      then show ?thesis using Inr p Some s1 Suc
        by (auto simp: c1 c2 c3 split: sum.splits)
    qed
  qed
  have N: "ensures I G (NextImpl (Suc n) W s internal)" if "I s" for s internal
    using Suc c2[OF that] by (auto simp: Let_def)
  have NO: "ensures I G (NextOuter (Suc n) W s internal)" if "I s" for s internal
    using Suc that um[OF that] by (auto simp: g split: option.splits)
  have NI: "ensures I G (NextInner (Suc n) W s internal)" if "I s" for s internal
  proof (cases "RestrictedRead W s")
    case (Inl f)
    then show ?thesis using RestrictedRead_fault[OF Inl] by (simp add: g)
  next
    case (Inr p)
    obtain ro s1 where p: "p = (ro, s1)" by (cases p)
    have s1: "I s1" using rd[OF that] Inr p by simp
    show ?thesis
    proof (cases ro)
      case None
      have 2: "I (s1\<lparr>currentFileIndex := currentFileIndex s1 + 1\<rparr>)" using s1 c4 by simp
      show ?thesis using Inr p None s1 Suc opn[OF 2, of "currentFileIndex s1 + 1"]
        by (auto simp: Let_def g c2 c3 split: prod.splits)
    next
      case (Some r)
      have "ensures I G (UpdateCurrentWriteBatch n W s1 r)"
        using Suc that Inr p Some by blast
      then show ?thesis using Inr p Some s1 Suc
        by (auto simp: g c1 split: sum.splits)
    qed
  qed
  show ?case using U S SL N NO NI by blast
qed

subsection \<open>Accepted batches end at or before the last sequence\<close>

lemma within_read:
  assumes "within W s" "RestrictedRead W s = Inr (r, s1)"
  shows "within W s1"
proof (cases r)
  case None
  then show ?thesis using assms
    by (auto simp: within_def committed_def elim!: RestrictedRead_NoneE)
next
  case (Some a)
  then show ?thesis using assms
    by (auto simp: within_def committed_def elim!: RestrictedRead_SomeE)
qed

lemma within_open:
  assumes "within W s" "i < length (files s)" "OpenLogReader W s (files s ! i) = (st, s1)"
  shows "within W s1"
proof -
  have "case OpenLogFile W (dir s) (files s ! i) of
          Inl e \<Rightarrow> True | Inr recs \<Rightarrow> list_all (in_range W) recs"
    using assms(1,2) by (simp add: within_def committed_def list_all_length)
  then show ?thesis using assms(1,3)
    by (auto simp: within_def committed_def elim!: OpenLogReader_cases)
qed

lemma within_accept:
  assumes "within W s" "RestrictedRead W s = Inr (Some r, s1)"
  shows "ensures (within W) (\<lambda>f. f \<noteq> AssertionFailed 268) (AcceptBatch W s1 r)"
proof -
  have "in_range W r" "within W s1"
    using assms by (auto simp: within_def committed_def elim!: RestrictedRead_SomeE)
  then show ?thesis
    by (simp add: AcceptBatch_def Let_def in_range_def within_def committed_def)
qed

lemma within_preserved:
  "(\<forall>s i strict. within W s \<longrightarrow>
       ensures (within W) (\<lambda>f. f \<noteq> AssertionFailed 268) (SeekToStartSequence n W s i strict))
   \<and> (\<forall>s internal. within W s \<longrightarrow>
       ensures (within W) (\<lambda>f. f \<noteq> AssertionFailed 268) (NextImpl n W s internal))"
proof -
  have "(\<forall>s0 s r. within W s0 \<longrightarrow> RestrictedRead W s0 = Inr (Some r, s)
            \<longrightarrow> ensures (within W) (\<lambda>f. f \<noteq> AssertionFailed 268) (UpdateCurrentWriteBatch n W s r))
       \<and> (\<forall>s i strict. within W s \<longrightarrow> ensures (within W) (\<lambda>f. f \<noteq> AssertionFailed 268) (SeekToStartSequence n W s i strict))
       \<and> (\<forall>s strict. within W s \<longrightarrow> ensures (within W) (\<lambda>f. f \<noteq> AssertionFailed 268) (SeekLoop n W s strict))
       \<and> (\<forall>s internal. within W s \<longrightarrow> ensures (within W) (\<lambda>f. f \<noteq> AssertionFailed 268) (NextImpl n W s internal))
       \<and> (\<forall>s internal. within W s \<longrightarrow> ensures (within W) (\<lambda>f. f \<noteq> AssertionFailed 268) (NextOuter n W s internal))
       \<and> (\<forall>s internal. within W s \<longrightarrow> ensures (within W) (\<lambda>f. f \<noteq> AssertionFailed 268) (NextInner n W s internal))"
  proof (rule preserved)
    show "\<And>s r s1. within W s \<Longrightarrow> RestrictedRead W s = Inr (r, s1) \<Longrightarrow> within W s1"
      by (rule within_read)
    show "\<And>s i st s1. within W s \<Longrightarrow> i < length (files s)
               \<Longrightarrow> OpenLogReader W s (files s ! i) = (st, s1) \<Longrightarrow> within W s1"
      by (rule within_open)
    show "\<And>s r s1. within W s \<Longrightarrow> RestrictedRead W s = Inr (Some r, s1)
               \<Longrightarrow> ensures (within W) (\<lambda>f. f \<noteq> AssertionFailed 268) (AcceptBatch W s1 r)"
      by (rule within_accept)
  qed (simp_all add: within_def committed_def UnmarkEOF_def)
  then show ?thesis by blast
qed

text \<open>
  C7. When the log files hold batches of the writer only (\<open>committed\<close>), no call of
  the constructor or of \<^verbatim>\<open>Next()\<close> fails the assertion
  \<^verbatim>\<open>currentLastSeq_ <= versions_->LastSequence()\<close> of line 268, which is evaluated
  after every accepted batch, and \<^verbatim>\<open>currentLastSeq_\<close> is at most the last sequence
  when the call returns.
\<close>

theorem accepted_batches_within_last_sequence:
  "(committed W (initial d seq fs) \<longrightarrow>
      NewIterator W d seq fs \<noteq> Inl (AssertionFailed 268)
      \<and> (\<forall>s'. NewIterator W d seq fs = Inr s'
            \<longrightarrow> currentLastSeq s' \<le> LastSequence W \<and> committed W s'))
   \<and> (committed W s \<and> currentLastSeq s \<le> LastSequence W \<longrightarrow>
      Next W s \<noteq> Inl (AssertionFailed 268)
      \<and> (\<forall>s'. Next W s = Inr s'
            \<longrightarrow> currentLastSeq s' \<le> LastSequence W \<and> committed W s'))"
proof -
  have a: "ensures (within W) (\<lambda>f. f \<noteq> AssertionFailed 268) (NewIterator W d seq fs)"
    if "committed W (initial d seq fs)"
  proof -
    have "within W (initial d seq fs)" using that by (simp add: within_def initial_def)
    then show ?thesis
      using within_preserved[of W "enough W (initial d seq fs)"]
      by (simp add: NewIterator_def)
  qed
  have b: "ensures (within W) (\<lambda>f. f \<noteq> AssertionFailed 268) (Next W s)"
    if "committed W s \<and> currentLastSeq s \<le> LastSequence W"
  proof -
    have "within W s" using that by (simp add: within_def)
    then show ?thesis
      using within_preserved[of W "enough W s"] by (simp add: Next_def)
  qed
  show ?thesis using a b by (auto simp: ensures_def within_def split: sum.splits)
qed

theorem accepted_batches_within_last_sequence_witness:
  "committed clean_world (initial ''db'' 1 [live_file 1 1])
   \<and> NewIterator clean_world ''db'' 1 [live_file 1 1] = Inr clean_state
   \<and> committed clean_world clean_state
   \<and> currentLastSeq clean_state \<le> LastSequence clean_world
   \<and> (\<exists>s'. Next clean_world clean_state = Inr s' \<and> Valid s'
          \<and> currentLastSeq s' \<le> LastSequence clean_world)"
proof -
  have h1: "committed clean_world (initial ''db'' 1 [live_file 1 1])" by code_simp
  have e1: "NewIterator clean_world ''db'' 1 [live_file 1 1] = Inr clean_state" by code_simp
  have t: "currentLastSeq clean_state \<le> LastSequence clean_world \<and> committed clean_world clean_state"
    using accepted_batches_within_last_sequence[of clean_world "''db''" 1 "[live_file 1 1]" clean_state]
      h1 e1 by blast
  have "observe (Next clean_world clean_state) = Inr (True, OK)" by code_simp
  then obtain s' where s': "Next clean_world clean_state = Inr s'" "Valid s'"
    by (auto dest!: observe_InrD)
  have "currentLastSeq s' \<le> LastSequence clean_world"
    using accepted_batches_within_last_sequence[of clean_world "''db''" 1 "[live_file 1 1]" clean_state]
      t s' by blast
  then show ?thesis using h1 e1 t s' by blast
qed

subsection \<open>Consecutive batches\<close>

lemma consistent_preserved:
  "(\<forall>s i strict. batch_consistent s \<longrightarrow>
       ensures batch_consistent (\<lambda>f. True) (SeekToStartSequence n W s i strict))
   \<and> (\<forall>s internal. batch_consistent s \<longrightarrow>
       ensures batch_consistent (\<lambda>f. True) (NextImpl n W s internal))"
proof -
  have "(\<forall>s0 s r. batch_consistent s0 \<longrightarrow> RestrictedRead W s0 = Inr (Some r, s)
            \<longrightarrow> ensures batch_consistent (\<lambda>f. True) (UpdateCurrentWriteBatch n W s r))
       \<and> (\<forall>s i strict. batch_consistent s \<longrightarrow> ensures batch_consistent (\<lambda>f. True) (SeekToStartSequence n W s i strict))
       \<and> (\<forall>s strict. batch_consistent s \<longrightarrow> ensures batch_consistent (\<lambda>f. True) (SeekLoop n W s strict))
       \<and> (\<forall>s internal. batch_consistent s \<longrightarrow> ensures batch_consistent (\<lambda>f. True) (NextImpl n W s internal))
       \<and> (\<forall>s internal. batch_consistent s \<longrightarrow> ensures batch_consistent (\<lambda>f. True) (NextOuter n W s internal))
       \<and> (\<forall>s internal. batch_consistent s \<longrightarrow> ensures batch_consistent (\<lambda>f. True) (NextInner n W s internal))"
  proof (rule preserved)
    show "\<And>s r s1. batch_consistent s \<Longrightarrow> RestrictedRead W s = Inr (r, s1) \<Longrightarrow> batch_consistent s1"
    proof -
      fix s r s1 assume a: "batch_consistent s" "RestrictedRead W s = Inr (r, s1)"
      show "batch_consistent s1"
      proof (cases r)
        case None
        then show ?thesis using a
          by (auto simp: batch_consistent_def split: option.splits elim!: RestrictedRead_NoneE)
      next
        case (Some x)
        then show ?thesis using a
          by (auto simp: batch_consistent_def split: option.splits elim!: RestrictedRead_SomeE)
      qed
    qed
    show "\<And>s i st s1. batch_consistent s \<Longrightarrow> i < length (files s)
               \<Longrightarrow> OpenLogReader W s (files s ! i) = (st, s1) \<Longrightarrow> batch_consistent s1"
      by (auto simp: batch_consistent_def split: option.splits elim!: OpenLogReader_cases)
    show "\<And>s r s1. batch_consistent s \<Longrightarrow> RestrictedRead W s = Inr (Some r, s1)
               \<Longrightarrow> ensures batch_consistent (\<lambda>f. True) (AcceptBatch W s1 r)"
      by (simp add: AcceptBatch_def Let_def batch_consistent_def)
  qed (simp_all add: batch_consistent_def split: option.splits)
  then show ?thesis by blast
qed

lemma consistent_Next:
  assumes "batch_consistent s" "Next W s = Inr s'"
  shows "batch_consistent s'"
proof -
  have "ensures batch_consistent (\<lambda>f. True) (Next W s)"
    using consistent_preserved[of "enough W s" W] assms(1) by (simp add: Next_def)
  then show ?thesis using assms(2) by simp
qed

lemma consistent_NewIterator:
  assumes "NewIterator W d seq fs = Inr s'"
  shows "batch_consistent s'"
proof -
  have "batch_consistent (initial d seq fs)" by (simp add: batch_consistent_def initial_def)
  then have "ensures batch_consistent (\<lambda>f. True) (NewIterator W d seq fs)"
    using consistent_preserved[of "enough W (initial d seq fs)" W]
    by (simp add: NewIterator_def)
  then show ?thesis using assms by simp
qed

lemma consistent_GetBatch: "GetBatch s = Inr (b, s') \<Longrightarrow> batch_consistent s'"
  by (auto simp: GetBatch_def batch_consistent_def split: if_splits)

lemma consistent_calls: "batch_consistent s \<Longrightarrow> calls cs s = Inr s' \<Longrightarrow> batch_consistent s'"
proof (induction cs arbitrary: s)
  case Nil
  then show ?case by simp
next
  case (Cons c cs)
  obtain W k where c: "c = (W, k)" by (cases c)
  show ?case
  proof (cases k)
    case CallNext
    then show ?thesis using Cons c by (auto split: sum.splits dest: consistent_Next)
  next
    case CallGetBatch
    then show ?thesis using Cons c by (auto split: sum.splits dest: consistent_GetBatch)
  qed
qed

lemma Update_contiguous:
  assumes "started s" "UpdateCurrentWriteBatch n W s r = Inr s'" "started s'"
  shows "isValid s' \<and> currentBatchSeq s' = currentLastSeq s + 1"
proof -
  obtain m where m: "n = Suc m" using assms(2) by (cases n) auto
  show ?thesis
  proof (cases "Sequence r = currentLastSeq s + 1")
    case True
    then have "AcceptBatch W s r = Inr s'"
      using assms(2) by (simp add: m Let_def IsBatchExpected_def)
    then show ?thesis using True by (auto elim!: AcceptBatch_InrE)
  next
    case False
    let ?i = "if currentLastSeq s + 1 < StartSequence (files s ! currentFileIndex s)
                 \<and> currentFileIndex s \<noteq> 0
              then currentFileIndex s - 1 else currentFileIndex s"
    let ?s3 = "s\<lparr>currentFileIndex := ?i, startingSequenceNumber := currentLastSeq s + 1,
                 currentStatus := STATUS kNotFound ''Gap in sequence numbers''\<rparr>"
    have "SeekToStartSequence m W ?s3 ?i True = Inr s'"
    proof (cases "currentLastSeq s + 1 < StartSequence (files s ! currentFileIndex s)
                 \<and> currentFileIndex s \<noteq> 0")
      case True
      then show ?thesis using assms(1,2) False
        by (simp add: m Let_def IsBatchExpected_def split: if_splits)
    next
      case F: False
      then show ?thesis using assms(1,2) False
        by (auto simp: m Let_def IsBatchExpected_def split: if_splits)
    qed
    then show ?thesis using Seek_strict_started[of m W ?s3 ?i s'] assms(3) by simp
  qed
qed

lemma NextLoop_contiguous:
  "(\<forall>s s'. started s \<longrightarrow> NextOuter n W s False = Inr s' \<longrightarrow> started s' \<longrightarrow> advanced s s')
   \<and> (\<forall>s s'. started s \<longrightarrow> NextInner n W s False = Inr s' \<longrightarrow> started s' \<longrightarrow> advanced s s')"
proof (induction n)
  case 0
  show ?case by simp
next
  case (Suc n)
  have O: "advanced s s'"
    if a: "started s" and b: "NextOuter (Suc n) W s False = Inr s'" and c: "started s'"
    for s s'
  proof -
    obtain rd where rd: "currentLogReader s = Some rd"
      using b by (cases "currentLogReader s") auto
    let ?s1 = "if IsEOF rd then s\<lparr>currentLogReader := Some (UnmarkEOF rd)\<rparr> else s"
    have "NextInner n W ?s1 False = Inr s'" using b rd by simp
    moreover have "started ?s1" using a by auto
    ultimately have "advanced ?s1 s'" using Suc c by blast
    then show ?thesis by (auto simp: advanced_def split: if_splits)
  qed
  have I: "advanced s s'"
    if a: "started s" and b: "NextInner (Suc n) W s False = Inr s'" and c: "started s'"
    for s s'
  proof (cases "RestrictedRead W s")
    case (Inl f)
    then show ?thesis using b by simp
  next
    case (Inr p)
    obtain ro s1 where p: "p = (ro, s1)" by (cases p)
    show ?thesis
    proof (cases ro)
      case None
      have s1: "started s1" "currentLastSeq s1 = currentLastSeq s"
        using Inr p None a by (auto elim!: RestrictedRead_NoneE)
      show ?thesis
      proof (cases "currentFileIndex s1 < size_minus_1 (files s1)")
        case True
        let ?s2 = "s1\<lparr>currentFileIndex := currentFileIndex s1 + 1\<rparr>"
        obtain st s3 where o: "OpenLogReader W ?s2 (files s1 ! (currentFileIndex s1 + 1)) = (st, s3)"
          by (cases "OpenLogReader W ?s2 (files s1 ! (currentFileIndex s1 + 1))")
        have s3: "started s3" "currentLastSeq s3 = currentLastSeq s"
          using o s1 by (auto elim!: OpenLogReader_cases)
        have i: "currentFileIndex ?s2 < length (files ?s2)"
          using b Inr p None True by (auto simp: Let_def split: if_splits)
        show ?thesis
        proof (cases "ok st")
          case ok: True
          have "NextOuter n W s3 False = Inr s'"
            using b Inr p None True o i ok by (simp add: Let_def)
          then have "advanced s3 s'" using Suc s3(1) c by blast
          then show ?thesis using s3(2) by (simp add: advanced_def)
        next
          case False
          then have "s' = s3\<lparr>isValid := False, currentStatus := st\<rparr>"
            using b Inr p None True o i by (simp add: Let_def)
          then show ?thesis using s3(2) by (simp add: advanced_def)
        qed
      next
        case False
        then show ?thesis using b Inr p None s1(2)
          by (auto simp: Let_def advanced_def split: if_splits)
      qed
    next
      case (Some r)
      have s1: "started s1" "currentLastSeq s1 = currentLastSeq s"
        using Inr p Some a by (auto elim!: RestrictedRead_SomeE)
      show ?thesis
      proof (cases "slice_size r < 12")
        case True
        then have "NextInner n W s1 False = Inr s'" using b Inr p Some by simp
        then have "advanced s1 s'" using Suc s1(1) c by blast
        then show ?thesis using s1(2) by (simp add: advanced_def)
      next
        case False
        then have "UpdateCurrentWriteBatch n W s1 r = Inr s'"
          using b Inr p Some s1(1) by (auto split: sum.splits)
        then show ?thesis using Update_contiguous[OF s1(1) _ c] s1(2)
          by (simp add: advanced_def)
      qed
    qed
  qed
  show ?case using O I by blast
qed

lemma Next_advanced:
  assumes "started s" "Next W s = Inr s'" "started s'"
  shows "advanced s s'"
proof -
  obtain n where n: "enough W s = Suc n" using enough_ge[of s W] by (cases "enough W s") auto
  have 1: "NextOuter n W (s\<lparr>isValid := False\<rparr>) False = Inr s'"
    using assms(1,2) by (simp add: Next_def n Let_def)
  have 2: "started (s\<lparr>isValid := False\<rparr>)" using assms(1) by simp
  have "advanced (s\<lparr>isValid := False\<rparr>) s'"
    using NextLoop_contiguous[of n W] 1 2 assms(3) by blast
  then show ?thesis by (simp add: advanced_def)
qed

lemma Nexts_in_contiguous:
  "started s \<Longrightarrow> Ws \<noteq> [] \<Longrightarrow> Nexts_in Ws s = Inr s' \<Longrightarrow> waits_started Ws s \<Longrightarrow> Valid s'
   \<Longrightarrow> currentBatchSeq s' = currentLastSeq s + 1"
proof (induction Ws s rule: waits_started.induct)
  case (1 s)
  then show ?case by simp
next
  case (2 W s)
  then have "Next W s = Inr s'" by (simp split: sum.splits)
  then show ?case using Next_advanced[OF "2.prems"(1)] "2.prems"(5)
    by (auto simp: advanced_def Valid_def)
next
  case (3 W W' Ws s)
  obtain s1 where s1: "Next W s = Inr s1" "started s1" "\<not> isValid s1"
      "waits_started (W' # Ws) s1"
    using "3.prems"(4) by (auto split: sum.splits)
  have l: "currentLastSeq s1 = currentLastSeq s"
    using Next_advanced[OF "3.prems"(1) s1(1,2)] s1(3) by (simp add: advanced_def)
  have "Nexts_in (W' # Ws) s1 = Inr s'" using "3.prems"(3) s1(1) by simp
  then have "currentBatchSeq s' = currentLastSeq s1 + 1"
    using "3.IH"[OF s1(1) s1(2)] s1(4) "3.prems"(5) by simp
  then show ?case using l by simp
qed

text \<open>
  C1, as the code has it. On an iterator reached from its construction by any calls of
  \<^verbatim>\<open>Next()\<close> and \<^verbatim>\<open>GetBatch()\<close>, in worlds that may differ from call to call:
  \<^verbatim>\<open>Valid()\<close> holds and \<^verbatim>\<open>GetBatch()\<close> returns the batch \<open>p\<close> at
  \<open>sequence b1\<close>; then come one or more calls of \<^verbatim>\<open>Next()\<close>, each but the last
  leaving the iterator started and without a batch; then \<^verbatim>\<open>Valid()\<close> holds again and
  \<^verbatim>\<open>GetBatch()\<close> returns \<open>b2\<close>. Then \<open>b2\<close> starts where \<open>p\<close> ended:
  \<open>sequence b2 = sequence b1 + Count p\<close>. With a single \<^verbatim>\<open>Next()\<close> between the two
  deliveries nothing is asked of that call.
\<close>

theorem consecutive_batches_contiguous:
  assumes "NewIterator W d seq fs = Inr s0" and "calls cs s0 = Inr s"
    and "Valid s" and "GetBatch s = Inr (b1, s1)" and "writeBatchPtr b1 = Some p"
    and "Ws \<noteq> []" and "Nexts_in Ws s1 = Inr s2" and "waits_started Ws s1"
    and "Valid s2" and "GetBatch s2 = Inr (b2, s3)"
  shows "sequence b2 = sequence b1 + Count p"
proof -
  have c: "batch_consistent s"
    using consistent_calls[OF consistent_NewIterator[OF assms(1)] assms(2)] .
  have b1: "sequence b1 = currentBatchSeq s" "currentBatch s = Some p"
      "s1 = s\<lparr>currentBatch := None\<rparr>"
    using assms(4,5) by (auto simp: GetBatch_def split: if_splits)
  have l: "currentLastSeq s1 = sequence b1 + Count p - 1" "started s1"
    using c b1 assms(3) by (auto simp: batch_consistent_def Valid_def)
  have "sequence b2 = currentBatchSeq s2"
    using assms(10) by (auto simp: GetBatch_def split: if_splits)
  then show ?thesis
    using Nexts_in_contiguous[OF l(2) assms(6) assms(7) assms(8) assms(9)] l(1) by simp
qed

theorem consecutive_batches_contiguous_witness:
  "NewIterator clean_world ''db'' 1 [live_file 1 1] = Inr clean_state
   \<and> Valid clean_state
   \<and> GetBatch clean_state
       = Inr (\<lparr>sequence = 1, writeBatchPtr = Some (batch_record 1 2)\<rparr>,
              clean_state\<lparr>currentBatch := None\<rparr>)
   \<and> waits_started [clean_world] (clean_state\<lparr>currentBatch := None\<rparr>)
   \<and> (\<exists>s2 b2 s3. Nexts_in [clean_world] (clean_state\<lparr>currentBatch := None\<rparr>) = Inr s2
         \<and> Valid s2 \<and> GetBatch s2 = Inr (b2, s3) \<and> sequence b2 = 3)
   \<and> NewIterator skip_world ''db'' 1 skip_files = Inr skip_state
   \<and> Valid skip_state
   \<and> GetBatch skip_state
       = Inr (\<lparr>sequence = 1, writeBatchPtr = Some (batch_record 1 1)\<rparr>,
              skip_state\<lparr>currentBatch := None\<rparr>)
   \<and> observe (Nexts_in [skip_world] (skip_state\<lparr>currentBatch := None\<rparr>))
       = Inr (False, STATUS kIOError ''No such file or directory'')
   \<and> waits_started [skip_world, skip_world] (skip_state\<lparr>currentBatch := None\<rparr>)
   \<and> (\<exists>s2 b2 s3. Nexts_in [skip_world, skip_world] (skip_state\<lparr>currentBatch := None\<rparr>) = Inr s2
         \<and> Valid s2 \<and> GetBatch s2 = Inr (b2, s3) \<and> sequence b2 = 2)"
proof -
  have h1: "NewIterator clean_world ''db'' 1 [live_file 1 1] = Inr clean_state" by code_simp
  have h2: "calls [] clean_state = Inr clean_state" by simp
  have h3: "Valid clean_state" by (simp add: Valid_def clean_state_def)
  have h4: "GetBatch clean_state
       = Inr (\<lparr>sequence = 1, writeBatchPtr = Some (batch_record 1 2)\<rparr>,
              clean_state\<lparr>currentBatch := None\<rparr>)"
    by (simp add: GetBatch_def clean_state_def)
  have h5: "writeBatchPtr \<lparr>sequence = 1, writeBatchPtr = Some (batch_record 1 2)\<rparr>
              = Some (batch_record 1 2)"
    by simp
  have h6: "[clean_world] \<noteq> []" by simp
  have h7: "waits_started [clean_world] (clean_state\<lparr>currentBatch := None\<rparr>)" by simp
  have "observe (Nexts_in [clean_world] (clean_state\<lparr>currentBatch := None\<rparr>)) = Inr (True, OK)"
    by code_simp
  then obtain s2 where s2: "Nexts_in [clean_world] (clean_state\<lparr>currentBatch := None\<rparr>) = Inr s2"
      "Valid s2"
    by (auto dest!: observe_InrD)
  obtain b2 s3 where g: "GetBatch s2 = Inr (b2, s3)"
    using s2(2) by (simp add: GetBatch_def Valid_def)
  have "sequence b2 = sequence \<lparr>sequence = 1, writeBatchPtr = Some (batch_record 1 2)\<rparr>
          + Count (batch_record 1 2)"
    by (rule consecutive_batches_contiguous[OF h1 h2 h3 h4 h5 h6 s2(1) h7 s2(2) g])
  then have a: "sequence b2 = 3" by (simp add: batch_record_def)
  have k1: "NewIterator skip_world ''db'' 1 skip_files = Inr skip_state" by code_simp
  have k2: "calls [] skip_state = Inr skip_state" by simp
  have k3: "Valid skip_state" by (simp add: Valid_def skip_state_def)
  have k4: "GetBatch skip_state
       = Inr (\<lparr>sequence = 1, writeBatchPtr = Some (batch_record 1 1)\<rparr>,
              skip_state\<lparr>currentBatch := None\<rparr>)"
    by (simp add: GetBatch_def skip_state_def)
  have k5: "writeBatchPtr \<lparr>sequence = 1, writeBatchPtr = Some (batch_record 1 1)\<rparr>
              = Some (batch_record 1 1)"
    by simp
  have k6: "[skip_world, skip_world] \<noteq> []" by simp
  have k7: "waits_started [skip_world, skip_world] (skip_state\<lparr>currentBatch := None\<rparr>)"
    by code_simp
  have k8: "observe (Nexts_in [skip_world] (skip_state\<lparr>currentBatch := None\<rparr>))
       = Inr (False, STATUS kIOError ''No such file or directory'')"
    by code_simp
  have "observe (Nexts_in [skip_world, skip_world] (skip_state\<lparr>currentBatch := None\<rparr>))
          = Inr (True, OK)"
    by code_simp
  then obtain t2 where t2: "Nexts_in [skip_world, skip_world] (skip_state\<lparr>currentBatch := None\<rparr>) = Inr t2"
      "Valid t2"
    by (auto dest!: observe_InrD)
  obtain c2 t3 where g': "GetBatch t2 = Inr (c2, t3)"
    using t2(2) by (simp add: GetBatch_def Valid_def)
  have "sequence c2 = sequence \<lparr>sequence = 1, writeBatchPtr = Some (batch_record 1 1)\<rparr>
          + Count (batch_record 1 1)"
    by (rule consecutive_batches_contiguous[OF k1 k2 k3 k4 k5 k6 t2(1) k7 t2(2) g'])
  then have b: "sequence c2 = 2" by (simp add: batch_record_def)
  show ?thesis using h1 h3 h4 h7 s2 g a k1 k3 k4 k7 k8 t2 g' b by blast
qed

text \<open>
  C1 as stated fails. On the log with the batches (1,1) and (3,1) and a writer at
  sequence 5, the constructor delivers (1,1); the first \<^verbatim>\<open>Next()\<close> finds the gap, its
  strict reseek fails and clears \<^verbatim>\<open>started_\<close>; the second \<^verbatim>\<open>Next()\<close> therefore seeks
  again from the first file, not strictly, and delivers (3,1), which does not start at
  1 + 1.
\<close>

theorem delivery_after_failed_reseek:
  "deliver (run_calls (gap_world 5) ''db'' 1 [live_file 1 1] [])
     = Inr (True, \<lparr>sequence = 1, writeBatchPtr = Some (batch_record 1 1)\<rparr>)
   \<and> observe (run_calls (gap_world 5) ''db'' 1 [live_file 1 1]
        [(gap_world 5, CallGetBatch), (gap_world 5, CallNext)])
     = Inr (False, gap_status)
   \<and> deliver (run_calls (gap_world 5) ''db'' 1 [live_file 1 1]
        [(gap_world 5, CallGetBatch), (gap_world 5, CallNext), (gap_world 5, CallNext)])
     = Inr (True, \<lparr>sequence = 3, writeBatchPtr = Some (batch_record 3 1)\<rparr>)
   \<and> (3 :: SequenceNumber) \<noteq> 1 + Count (batch_record 1 1)"
  by code_simp

subsection \<open>Termination\<close>

lemma file_weight_le_total:
  "i < length (files s) \<Longrightarrow> file_weight W (dir s) (files s ! i) \<le> total_weight W s"
  by (simp add: total_weight_def member_le_sum_list)

lemma rest_weight_le_total: "rest_weight W s \<le> total_weight W s"
proof -
  have "sum_list (map (file_weight W (dir s)) (files s))
      = sum_list (map (file_weight W (dir s)) (take (Suc (currentFileIndex s)) (files s)))
        + sum_list (map (file_weight W (dir s)) (drop (Suc (currentFileIndex s)) (files s)))"
    by (metis append_take_drop_id map_append sum_list.append)
  then show ?thesis by (simp add: rest_weight_def total_weight_def)
qed

lemma rest_weight_step:
  assumes "Suc (currentFileIndex s) < length (files s)"
  shows "rest_weight W s = file_weight W (dir s) (files s ! Suc (currentFileIndex s))
           + rest_weight W (s\<lparr>currentFileIndex := Suc (currentFileIndex s)\<rparr>)"
  using assms by (simp add: rest_weight_def Cons_nth_drop_Suc[symmetric])

lemma opened_weight:
  assumes "OpenLogReader W s f = (st, s1)" "ok st"
  shows "reader_weight s1 + 2 = file_weight W (dir s) f"
  using assms by (auto simp: reader_weight_def file_weight_def elim!: OpenLogReader_cases)

lemma SeekLoop_strict_terminates:
  "\<not> started s \<Longrightarrow> reader_weight s < n \<Longrightarrow> SeekLoop n W s True \<noteq> Inl OutOfFuel"
proof (induction n arbitrary: s)
  case 0
  then show ?case by simp
next
  case (Suc n)
  show ?case
  proof (cases "RestrictedRead W s")
    case (Inl f)
    then show ?thesis using RestrictedRead_fault[OF Inl] by simp
  next
    case (Inr p)
    obtain ro s1 where p: "p = (ro, s1)" by (cases p)
    show ?thesis
    proof (cases ro)
      case None
      then show ?thesis using Inr p by simp
    next
      case (Some r)
      have rr: "RestrictedRead W s = Inr (Some r, s1)" using Inr p Some by simp
      have s1: "\<not> started s1" "Suc (reader_weight s1) = reader_weight s"
        using rr Suc.prems(1) by (auto simp: reader_weight_def elim!: RestrictedRead_SomeE)
      then obtain m where m: "n = Suc m" using Suc.prems(2) by (cases n) auto
      show ?thesis
      proof (cases "slice_size r < 12")
        case True
        have "SeekLoop n W s1 True \<noteq> Inl OutOfFuel"
          by (rule Suc.IH) (use s1 Suc.prems(2) in auto)
        then show ?thesis using rr True by simp
      next
        case False
        have u: "UpdateCurrentWriteBatch n W s1 r = AcceptBatch W s1 r"
          using s1(1) by (simp add: m Let_def)
        show ?thesis
        proof (cases "AcceptBatch W s1 r")
          case (Inl f)
          then show ?thesis using rr False u AcceptBatch_fault[OF Inl] by simp
        next
          case (Inr s2)
          have s2: "\<not> started (s2\<lparr>isValid := False\<rparr>)"
            "reader_weight (s2\<lparr>isValid := False\<rparr>) = reader_weight s1"
            using Inr s1(1) by (auto simp: reader_weight_def elim!: AcceptBatch_InrE)
          have "SeekLoop n W (s2\<lparr>isValid := False\<rparr>) True \<noteq> Inl OutOfFuel"
            by (rule Suc.IH) (use s2 s1 Suc.prems(2) in auto)
          then show ?thesis using rr False u Inr by simp
        qed
      qed
    qed
  qed
qed

lemma Seek_strict_terminates:
  assumes "0 < n" and "i < length (files s) \<Longrightarrow> file_weight W (dir s) (files s ! i) \<le> n"
  shows "SeekToStartSequence n W s i True \<noteq> Inl OutOfFuel"
proof -
  obtain m where m: "n = Suc m" using assms(1) by (cases n) auto
  let ?s1 = "s\<lparr>started := False, isValid := False\<rparr>"
  show ?thesis
  proof (cases "length (files s) \<le> i")
    case True
    then show ?thesis by (simp add: m Let_def)
  next
    case False
    obtain st s2 where o: "OpenLogReader W ?s1 (files s ! i) = (st, s2)"
      by (cases "OpenLogReader W ?s1 (files s ! i)")
    show ?thesis
    proof (cases "ok st")
      case True
      have "reader_weight s2 + 2 = file_weight W (dir s) (files s ! i)"
        using opened_weight[OF o True] by simp
      then have "reader_weight s2 < m" using assms(2) False m by simp
      moreover have "\<not> started s2" using o by (auto elim!: OpenLogReader_cases)
      ultimately have "SeekLoop m W s2 True \<noteq> Inl OutOfFuel"
        by (rule SeekLoop_strict_terminates[rotated])
      then show ?thesis using False o True by (simp add: m Let_def)
    next
      case F: False
      then show ?thesis using False o by (simp add: m Let_def)
    qed
  qed
qed

lemma Update_terminates:
  assumes "total_weight W s + 2 \<le> n"
  shows "UpdateCurrentWriteBatch n W s r \<noteq> Inl OutOfFuel"
proof -
  obtain m where m: "n = Suc m" using assms by (cases n) auto
  show ?thesis
  proof (cases "started s \<and> \<not> IsBatchExpected r (currentLastSeq s + 1)")
    case False
    then have "UpdateCurrentWriteBatch n W s r = AcceptBatch W s r"
      by (auto simp: m Let_def)
    then show ?thesis using AcceptBatch_fault[of W s r] by (cases "AcceptBatch W s r") auto
  next
    case True
    show ?thesis
    proof (cases "currentFileIndex s < length (files s)")
      case F: False
      then show ?thesis using True by (simp add: m Let_def)
    next
      case T: True
      let ?i = "if currentLastSeq s + 1 < StartSequence (files s ! currentFileIndex s)
                 \<and> currentFileIndex s \<noteq> 0
              then currentFileIndex s - 1 else currentFileIndex s"
      let ?s3 = "s\<lparr>currentFileIndex := ?i, startingSequenceNumber := currentLastSeq s + 1,
                 currentStatus := STATUS kNotFound ''Gap in sequence numbers''\<rparr>"
      have e: "UpdateCurrentWriteBatch n W s r = SeekToStartSequence m W ?s3 ?i True"
        using True T by (auto simp: m Let_def)
      have "SeekToStartSequence m W ?s3 ?i True \<noteq> Inl OutOfFuel"
      proof (rule Seek_strict_terminates)
        show "0 < m" using assms m by simp
        assume "?i < length (files ?s3)"
        then have "file_weight W (dir s) (files s ! ?i) \<le> total_weight W s"
          using file_weight_le_total[of ?i s W] by simp
        then show "file_weight W (dir ?s3) (files ?s3 ! ?i) \<le> m"
          using assms m by simp
      qed
      then show ?thesis using e by simp
    qed
  qed
qed

text \<open>The loops of \<^verbatim>\<open>NextImpl\<close> and the seek that is not strict.\<close>

lemma NextLoop_terminates:
  "(\<forall>s internal. reader_weight s + rest_weight W s + total_weight W s + 4 \<le> n
        \<longrightarrow> NextOuter n W s internal \<noteq> Inl OutOfFuel)
   \<and> (\<forall>s internal. reader_weight s + rest_weight W s + total_weight W s + 3 \<le> n
        \<longrightarrow> NextInner n W s internal \<noteq> Inl OutOfFuel)"
proof (induction n)
  case 0
  show ?case by simp
next
  case (Suc n)
  have O: "NextOuter (Suc n) W s internal \<noteq> Inl OutOfFuel"
    if a: "reader_weight s + rest_weight W s + total_weight W s + 4 \<le> Suc n" for s internal
  proof (cases "currentLogReader s")
    case None
    then show ?thesis by simp
  next
    case (Some rd)
    let ?s1 = "if IsEOF rd then s\<lparr>currentLogReader := Some (UnmarkEOF rd)\<rparr> else s"
    have "reader_weight ?s1 = reader_weight s" "rest_weight W ?s1 = rest_weight W s"
      "total_weight W ?s1 = total_weight W s"
      using Some by (auto simp: reader_weight_def rest_weight_def total_weight_def UnmarkEOF_def)
    then have "NextInner n W ?s1 internal \<noteq> Inl OutOfFuel" using Suc a by simp
    then show ?thesis using Some by simp
  qed
  have I: "NextInner (Suc n) W s internal \<noteq> Inl OutOfFuel"
    if a: "reader_weight s + rest_weight W s + total_weight W s + 3 \<le> Suc n" for s internal
  proof (cases "RestrictedRead W s")
    case (Inl f)
    then show ?thesis using RestrictedRead_fault[OF Inl] by simp
  next
    case (Inr p)
    obtain ro s1 where p: "p = (ro, s1)" by (cases p)
    show ?thesis
    proof (cases ro)
      case None
      have rr: "RestrictedRead W s = Inr (None, s1)" using Inr p None by simp
      have s1: "reader_weight s1 = reader_weight s" "rest_weight W s1 = rest_weight W s"
        "total_weight W s1 = total_weight W s"
        using rr by (auto simp: reader_weight_def rest_weight_def total_weight_def
            elim!: RestrictedRead_NoneE)
      show ?thesis
      proof (cases "currentFileIndex s1 < size_minus_1 (files s1)
                      \<and> Suc (currentFileIndex s1) < length (files s1)")
        case True
        let ?s2 = "s1\<lparr>currentFileIndex := currentFileIndex s1 + 1\<rparr>"
        obtain st s3 where o: "OpenLogReader W ?s2 (files s1 ! Suc (currentFileIndex s1)) = (st, s3)"
          by (cases "OpenLogReader W ?s2 (files s1 ! Suc (currentFileIndex s1))")
        show ?thesis
        proof (cases "ok st")
          case ok: True
          have w: "reader_weight s3 + 2 = file_weight W (dir s1) (files s1 ! Suc (currentFileIndex s1))"
            using opened_weight[OF o ok] by simp
          have f3: "rest_weight W s3 = rest_weight W ?s2" "total_weight W s3 = total_weight W s1"
            using o by (auto simp: rest_weight_def total_weight_def elim!: OpenLogReader_cases)
          have "rest_weight W s1 = file_weight W (dir s1) (files s1 ! Suc (currentFileIndex s1))
                  + rest_weight W ?s2"
            using rest_weight_step[of s1 W] True by simp
          then have "reader_weight s3 + rest_weight W s3 + total_weight W s3 + 4 \<le> n"
            using a s1 w f3 by simp
          then have "NextOuter n W s3 internal \<noteq> Inl OutOfFuel" using Suc by blast
          then show ?thesis using rr True o ok by (simp add: Let_def)
        next
          case False
          then show ?thesis using rr True o by (simp add: Let_def)
        qed
      next
        case False
        then show ?thesis using rr by (auto simp: Let_def)
      qed
    next
      case (Some r)
      have rr: "RestrictedRead W s = Inr (Some r, s1)" using Inr p Some by simp
      have s1: "Suc (reader_weight s1) = reader_weight s" "rest_weight W s1 = rest_weight W s"
        "total_weight W s1 = total_weight W s"
        using rr by (auto simp: reader_weight_def rest_weight_def total_weight_def
            elim!: RestrictedRead_SomeE)
      show ?thesis
      proof (cases "slice_size r < 12")
        case True
        have "NextInner n W s1 internal \<noteq> Inl OutOfFuel" using Suc a s1 by simp
        then show ?thesis using rr True by simp
      next
        case False
        have "UpdateCurrentWriteBatch n W s1 r \<noteq> Inl OutOfFuel"
          by (rule Update_terminates) (use a s1 in simp)
        then show ?thesis using rr False
          by (cases "UpdateCurrentWriteBatch n W s1 r") auto
      qed
    qed
  qed
  show ?case using O I by blast
qed

lemma NextImpl_internal_terminates:
  assumes "internal \<or> started s"
    and "reader_weight s + rest_weight W s + total_weight W s + 5 \<le> n"
  shows "NextImpl n W s internal \<noteq> Inl OutOfFuel"
proof -
  obtain m where m: "n = Suc m" using assms(2) by (cases n) auto
  let ?s1 = "s\<lparr>isValid := False\<rparr>"
  have "reader_weight ?s1 = reader_weight s" "rest_weight W ?s1 = rest_weight W s"
      "total_weight W ?s1 = total_weight W s"
    by (auto simp: reader_weight_def rest_weight_def total_weight_def)
  then have "NextOuter m W ?s1 internal \<noteq> Inl OutOfFuel"
    using NextLoop_terminates[of W m] assms(2) m by simp
  then show ?thesis using assms(1) by (auto simp: m Let_def)
qed

lemma SeekLoop_terminates:
  "\<not> started s \<Longrightarrow> reader_weight s + rest_weight W s + total_weight W s + 6 \<le> n
   \<Longrightarrow> SeekLoop n W s False \<noteq> Inl OutOfFuel"
proof (induction n arbitrary: s)
  case 0
  then show ?case by simp
next
  case (Suc n)
  show ?case
  proof (cases "RestrictedRead W s")
    case (Inl f)
    then show ?thesis using RestrictedRead_fault[OF Inl] by simp
  next
    case (Inr p)
    obtain ro s1 where p: "p = (ro, s1)" by (cases p)
    show ?thesis
    proof (cases ro)
      case None
      have rr: "RestrictedRead W s = Inr (None, s1)" using Inr p None by simp
      let ?s2 = "s1\<lparr>currentStatus := STATUS kCorruption
                    ''Start sequence was not found, skipping to the next available''\<rparr>"
      have "reader_weight ?s2 = reader_weight s" "rest_weight W ?s2 = rest_weight W s"
        "total_weight W ?s2 = total_weight W s"
        using rr by (auto simp: reader_weight_def rest_weight_def total_weight_def
            elim!: RestrictedRead_NoneE)
      then have "NextImpl n W ?s2 True \<noteq> Inl OutOfFuel"
        using NextImpl_internal_terminates[of True ?s2 W n] Suc.prems(2) by simp
      then show ?thesis using rr by simp
    next
      case (Some r)
      have rr: "RestrictedRead W s = Inr (Some r, s1)" using Inr p Some by simp
      have s1: "\<not> started s1" "Suc (reader_weight s1) = reader_weight s"
        "rest_weight W s1 = rest_weight W s" "total_weight W s1 = total_weight W s"
        using rr Suc.prems(1)
        by (auto simp: reader_weight_def rest_weight_def total_weight_def
            elim!: RestrictedRead_SomeE)
      obtain m where m: "n = Suc m" using Suc.prems(2) by (cases n) auto
      show ?thesis
      proof (cases "slice_size r < 12")
        case True
        have "SeekLoop n W s1 False \<noteq> Inl OutOfFuel"
          by (rule Suc.IH) (use s1 Suc.prems(2) in auto)
        then show ?thesis using rr True by simp
      next
        case False
        have u: "UpdateCurrentWriteBatch n W s1 r = AcceptBatch W s1 r"
          using s1(1) by (simp add: m Let_def)
        show ?thesis
        proof (cases "AcceptBatch W s1 r")
          case (Inl f)
          then show ?thesis using rr False u AcceptBatch_fault[OF Inl] by simp
        next
          case (Inr s2)
          have s2: "\<not> started (s2\<lparr>isValid := False\<rparr>)"
            "reader_weight (s2\<lparr>isValid := False\<rparr>) = reader_weight s1"
            "rest_weight W (s2\<lparr>isValid := False\<rparr>) = rest_weight W s1"
            "total_weight W (s2\<lparr>isValid := False\<rparr>) = total_weight W s1"
            using Inr s1(1)
            by (auto simp: reader_weight_def rest_weight_def total_weight_def
                elim!: AcceptBatch_InrE)
          have "SeekLoop n W (s2\<lparr>isValid := False\<rparr>) False \<noteq> Inl OutOfFuel"
            by (rule Suc.IH) (use s2 s1 Suc.prems(2) in auto)
          then show ?thesis using rr False u Inr by simp
        qed
      qed
    qed
  qed
qed

lemma Seek_terminates:
  assumes "3 * total_weight W s + 5 \<le> n"
  shows "SeekToStartSequence n W s i False \<noteq> Inl OutOfFuel"
proof -
  obtain m where m: "n = Suc m" using assms by (cases n) auto
  let ?s1 = "s\<lparr>started := False, isValid := False\<rparr>"
  show ?thesis
  proof (cases "length (files s) \<le> i")
    case True
    then show ?thesis by (simp add: m Let_def)
  next
    case False
    obtain st s2 where o: "OpenLogReader W ?s1 (files s ! i) = (st, s2)"
      by (cases "OpenLogReader W ?s1 (files s ! i)")
    show ?thesis
    proof (cases "ok st")
      case True
      have "reader_weight s2 + 2 = file_weight W (dir s) (files s ! i)"
        using opened_weight[OF o True] by simp
      moreover have "file_weight W (dir s) (files s ! i) \<le> total_weight W s"
        using file_weight_le_total[of i s W] False by simp
      moreover have f: "\<not> started s2" "rest_weight W s2 = rest_weight W s"
          "total_weight W s2 = total_weight W s"
        using o by (auto simp: rest_weight_def total_weight_def elim!: OpenLogReader_cases)
      moreover have "rest_weight W s \<le> total_weight W s" by (rule rest_weight_le_total)
      ultimately have "reader_weight s2 + rest_weight W s2 + total_weight W s2 + 6 \<le> m"
        using assms m by simp
      then have "SeekLoop m W s2 False \<noteq> Inl OutOfFuel"
        using SeekLoop_terminates f(1) by blast
      then show ?thesis using False o True by (simp add: m Let_def)
    next
      case F: False
      then show ?thesis using False o by (simp add: m Let_def)
    qed
  qed
qed

lemma enough_total: "enough W s = reader_weight s + 3 * total_weight W s + 10"
  by (simp add: enough_def total_weight_def)

lemma Next_within_budget: "Next W s \<noteq> Inl OutOfFuel"
proof (cases "started s")
  case True
  have "rest_weight W s \<le> total_weight W s" by (rule rest_weight_le_total)
  then have "reader_weight s + rest_weight W s + total_weight W s + 5 \<le> enough W s"
    by (simp add: enough_total)
  then show ?thesis
    using NextImpl_internal_terminates[of False s W "enough W s"] True by (simp add: Next_def)
next
  case False
  obtain m where m: "enough W s = Suc m" "3 * total_weight W s + 5 \<le> m"
    using enough_total[of W s] by (cases "enough W s") auto
  have "SeekToStartSequence m W (s\<lparr>isValid := False\<rparr>) 0 False \<noteq> Inl OutOfFuel"
    by (rule Seek_terminates) (use m in \<open>simp add: total_weight_def\<close>)
  then show ?thesis using False by (simp add: Next_def m Let_def)
qed

lemma NewIterator_within_budget: "NewIterator W d seq fs \<noteq> Inl OutOfFuel"
  unfolding NewIterator_def
  by (rule Seek_terminates) (simp add: enough_total)

text \<open>A larger budget changes no result that a smaller one has reached.\<close>

lemma budget_mono:
  "(\<forall>s b. UpdateCurrentWriteBatch n W s b \<noteq> Inl OutOfFuel
        \<longrightarrow> UpdateCurrentWriteBatch (n + k) W s b = UpdateCurrentWriteBatch n W s b)
   \<and> (\<forall>s i strict. SeekToStartSequence n W s i strict \<noteq> Inl OutOfFuel
        \<longrightarrow> SeekToStartSequence (n + k) W s i strict = SeekToStartSequence n W s i strict)
   \<and> (\<forall>s strict. SeekLoop n W s strict \<noteq> Inl OutOfFuel
        \<longrightarrow> SeekLoop (n + k) W s strict = SeekLoop n W s strict)
   \<and> (\<forall>s internal. NextImpl n W s internal \<noteq> Inl OutOfFuel
        \<longrightarrow> NextImpl (n + k) W s internal = NextImpl n W s internal)
   \<and> (\<forall>s internal. NextOuter n W s internal \<noteq> Inl OutOfFuel
        \<longrightarrow> NextOuter (n + k) W s internal = NextOuter n W s internal)
   \<and> (\<forall>s internal. NextInner n W s internal \<noteq> Inl OutOfFuel
        \<longrightarrow> NextInner (n + k) W s internal = NextInner n W s internal)"
proof (induction n)
  case 0
  show ?case by simp
next
  case (Suc n)
  have U: "UpdateCurrentWriteBatch (Suc n + k) W s b = UpdateCurrentWriteBatch (Suc n) W s b"
    if "UpdateCurrentWriteBatch (Suc n) W s b \<noteq> Inl OutOfFuel" for s b
    using that Suc by (auto simp: Let_def)
  have S: "SeekToStartSequence (Suc n + k) W s i strict = SeekToStartSequence (Suc n) W s i strict"
    if "SeekToStartSequence (Suc n) W s i strict \<noteq> Inl OutOfFuel" for s i strict
    using that Suc by (auto simp: Let_def split: prod.splits)
  have SL: "SeekLoop (Suc n + k) W s strict = SeekLoop (Suc n) W s strict"
    if a: "SeekLoop (Suc n) W s strict \<noteq> Inl OutOfFuel" for s strict
  proof (cases "RestrictedRead W s")
    case (Inl f)
    then show ?thesis by simp
  next
    case (Inr p)
    obtain ro s1 where p: "p = (ro, s1)" by (cases p)
    show ?thesis
    proof (cases ro)
      case None
      then show ?thesis using a Inr p Suc by auto
    next
      case (Some r)
      show ?thesis
      proof (cases "slice_size r < 12")
        case True
        then show ?thesis using a Inr p Some Suc by auto
      next
        case False
        have u: "UpdateCurrentWriteBatch n W s1 r \<noteq> Inl OutOfFuel"
          using a Inr p Some False by auto
        then have e: "UpdateCurrentWriteBatch (n + k) W s1 r = UpdateCurrentWriteBatch n W s1 r"
          using Suc by blast
        show ?thesis
        proof (cases "UpdateCurrentWriteBatch n W s1 r")
          case (Inl f)
          then show ?thesis using Inr p Some False e by simp
        next
          case R: (Inr s2)
          then show ?thesis using a Inr p Some False e Suc by auto
        qed
      qed
    qed
  qed
  have N: "NextImpl (Suc n + k) W s internal = NextImpl (Suc n) W s internal"
    if "NextImpl (Suc n) W s internal \<noteq> Inl OutOfFuel" for s internal
    using that Suc by (auto simp: Let_def)
  have NO: "NextOuter (Suc n + k) W s internal = NextOuter (Suc n) W s internal"
    if "NextOuter (Suc n) W s internal \<noteq> Inl OutOfFuel" for s internal
    using that Suc by (auto split: option.splits)
  have NI: "NextInner (Suc n + k) W s internal = NextInner (Suc n) W s internal"
    if a: "NextInner (Suc n) W s internal \<noteq> Inl OutOfFuel" for s internal
  proof (cases "RestrictedRead W s")
    case (Inl f)
    then show ?thesis by simp
  next
    case (Inr p)
    obtain ro s1 where p: "p = (ro, s1)" by (cases p)
    show ?thesis
    proof (cases ro)
      case None
      then show ?thesis using a Inr p Suc by (auto simp: Let_def split: prod.splits)
    next
      case (Some r)
      show ?thesis
      proof (cases "slice_size r < 12")
        case True
        then show ?thesis using a Inr p Some Suc by auto
      next
        case False
        show ?thesis
        proof (cases "\<not> (internal \<or> started s1) \<or> \<not> (\<not> internal \<or> \<not> started s1)")
          case True
          then show ?thesis using Inr p Some False by auto
        next
          case F: False
          have u: "UpdateCurrentWriteBatch n W s1 r \<noteq> Inl OutOfFuel"
            using a Inr p Some False F by (auto split: sum.splits)
          then have e: "UpdateCurrentWriteBatch (n + k) W s1 r = UpdateCurrentWriteBatch n W s1 r"
            using Suc by blast
          show ?thesis using Inr p Some False F e by auto
        qed
      qed
    qed
  qed
  show ?case using U S SL N NO NI by blast
qed

text \<open>
  C10. \<^verbatim>\<open>Next()\<close> and the constructor never exhaust their budget, whatever the state,
  the file list and the records of the files: they return, or stop at an assertion or an
  exception. (\<^verbatim>\<open>Valid()\<close>, \<^verbatim>\<open>status()\<close> and \<^verbatim>\<open>GetBatch()\<close> do not recurse.)
  The recursion between \<^verbatim>\<open>UpdateCurrentWriteBatch\<close> and the strict seek is one deep:
  a strict seek returns within the weight of the one file it opens; an update of an
  iterator that is not started is the acceptance of the batch, with no further call; and
  a seek clears \<^verbatim>\<open>started_\<close> first, so it does not depend on it. Any larger budget
  gives \<^verbatim>\<open>Next()\<close> the same result.
\<close>

theorem operations_terminate:
  "Next W s \<noteq> Inl OutOfFuel
   \<and> NewIterator W d seq fs \<noteq> Inl OutOfFuel
   \<and> NextImpl (enough W s + k) W s False = Next W s
   \<and> (i < length (files s) \<and> file_weight W (dir s) (files s ! i) \<le> n
        \<longrightarrow> SeekToStartSequence n W s i True \<noteq> Inl OutOfFuel)
   \<and> (\<not> started s \<longrightarrow> UpdateCurrentWriteBatch (Suc n) W s b = AcceptBatch W s b)
   \<and> SeekToStartSequence (Suc n) W s i strict
       = SeekToStartSequence (Suc n) W (s\<lparr>started := False\<rparr>) i strict"
proof (intro conjI impI)
  show 1: "Next W s \<noteq> Inl OutOfFuel" by (rule Next_within_budget)
  show "NewIterator W d seq fs \<noteq> Inl OutOfFuel" by (rule NewIterator_within_budget)
  show "NextImpl (enough W s + k) W s False = Next W s"
    using budget_mono[of "enough W s" W k] 1 by (simp add: Next_def)
  show "SeekToStartSequence n W s i True \<noteq> Inl OutOfFuel"
    if "i < length (files s) \<and> file_weight W (dir s) (files s ! i) \<le> n"
  proof (rule Seek_strict_terminates)
    have "2 \<le> file_weight W (dir s) (files s ! i)"
      by (simp add: file_weight_def split: sum.splits)
    then show "0 < n" using that by simp
    show "file_weight W (dir s) (files s ! i) \<le> n" using that by simp
  qed
  show "UpdateCurrentWriteBatch (Suc n) W s b = AcceptBatch W s b" if "\<not> started s"
    using that by (simp add: Let_def)
  show "SeekToStartSequence (Suc n) W s i strict
       = SeekToStartSequence (Suc n) W (s\<lparr>started := False\<rparr>) i strict"
    by (simp add: Let_def)
qed

text \<open>An instance of the termination theorem.\<close>

theorem operations_terminate_witness:
  "Next (gap_world 3) gap_seek_state \<noteq> Inl OutOfFuel
   \<and> 0 < length (files gap_seek_state)
   \<and> file_weight (gap_world 3) (dir gap_seek_state) (files gap_seek_state ! 0) \<le> 4
   \<and> SeekToStartSequence 4 (gap_world 3) gap_seek_state 0 True \<noteq> Inl OutOfFuel
   \<and> \<not> started (initial ''db'' 1 [live_file 1 1])
   \<and> UpdateCurrentWriteBatch (Suc 0) (gap_world 3) (initial ''db'' 1 [live_file 1 1])
        (batch_record 1 1)
      = AcceptBatch (gap_world 3) (initial ''db'' 1 [live_file 1 1]) (batch_record 1 1)"
proof -
  have h1: "0 < length (files gap_seek_state)" by (simp add: gap_seek_state_def)
  have h2: "file_weight (gap_world 3) (dir gap_seek_state) (files gap_seek_state ! 0) \<le> 4"
    by code_simp
  have h3: "\<not> started (initial ''db'' 1 [live_file 1 1])" by (simp add: initial_def)
  have a: "Next (gap_world 3) gap_seek_state \<noteq> Inl OutOfFuel"
    and b: "SeekToStartSequence 4 (gap_world 3) gap_seek_state 0 True \<noteq> Inl OutOfFuel"
    using operations_terminate[where W="gap_world 3" and s=gap_seek_state and i=0 and n=4]
      h1 h2
    by blast+
  have c: "UpdateCurrentWriteBatch (Suc 0) (gap_world 3) (initial ''db'' 1 [live_file 1 1])
        (batch_record 1 1)
      = AcceptBatch (gap_world 3) (initial ''db'' 1 [live_file 1 1]) (batch_record 1 1)"
    using operations_terminate[where W="gap_world 3" and s="initial ''db'' 1 [live_file 1 1]"
        and n=0 and b="batch_record 1 1"] h3
    by blast
  show ?thesis using h1 h2 h3 a b c by blast
qed

subsection \<open>Statuses that stay and statuses that do not\<close>

lemma Next_past_last:
  assumes "past_last W s"
  shows "\<exists>s'. Next W s = Inr s' \<and> past_last W s' \<and> \<not> Valid s'
           \<and> status s' = STATUS kCorruption ''NO MORE DATA LEFT''"
proof -
  obtain rd where rd: "currentLogReader s = Some rd"
    and c: "LastSequence W \<le> currentLastSeq s \<or> (\<forall>r\<in>set (pending rd). slice_size r < 12)"
    using assms by (auto simp: past_last_def list_all_iff split: option.splits)
  have st: "started s" and ne: "currentLastSeq s \<noteq> LastSequence W"
    and ix: "\<not> currentFileIndex s < size_minus_1 (files s)"
    using assms by (simp_all add: past_last_def)
  obtain n where n: "enough W s = Suc (Suc n)" "length (pending rd) < n"
  proof -
    have "length (pending rd) + 10 \<le> enough W s"
      using enough_ge[of s W] rd by (simp add: reader_weight_def)
    then have "enough W s = Suc (Suc (enough W s - 2))" "length (pending rd) < enough W s - 2"
      by simp_all
    then show ?thesis using that by blast
  qed
  let ?s0 = "s\<lparr>isValid := False\<rparr>"
  let ?rd = "if IsEOF rd then UnmarkEOF rd else rd"
  let ?s1 = "if IsEOF rd then ?s0\<lparr>currentLogReader := Some (UnmarkEOF rd)\<rparr> else ?s0"
  have 1: "Next W s = NextInner n W ?s1 False"
    using st rd by (simp add: Next_def n(1) Let_def)
  have "\<exists>s'. NextInner n W ?s1 False = Inr s' \<and> ran_off W ?s1 s'"
    by (rule NextInner_past_last[where rd="?rd"]) (use rd c ix n(2) in \<open>auto simp: UnmarkEOF_def\<close>)
  then obtain s' where s': "Next W s = Inr s'" "ran_off W ?s1 s'" using 1 by auto
  have "past_last W s'"
    using s'(2) st ne ix
    by (auto simp: ran_off_def past_last_def split: option.splits if_splits)
  moreover have "\<not> Valid s'" "status s' = STATUS kCorruption ''NO MORE DATA LEFT''"
    using s'(2) ne by (auto simp: ran_off_def Valid_def status_def split: if_splits)
  ultimately show ?thesis using s'(1) by blast
qed

text \<open>
  C2, as the code has it. \<^verbatim>\<open>Next()\<close> does not treat a status as final: it runs the
  seek again when the iterator is not started and the advance when it is. What stays is
  Corruption("NO MORE DATA LEFT") of a started iterator: once it stands past the last
  file with \<^verbatim>\<open>currentLastSeq_\<close> different from the last sequence, every number of
  \<^verbatim>\<open>Next()\<close> calls, one or more, ends with \<^verbatim>\<open>Valid()\<close> false and that status.
\<close>

theorem no_more_data_is_kept:
  assumes "past_last W s" and "0 < k"
  shows "\<exists>s'. Nexts W k s = Inr s' \<and> \<not> Valid s'
           \<and> status s' = STATUS kCorruption ''NO MORE DATA LEFT''"
  using assms
proof (induction k arbitrary: s)
  case 0
  then show ?case by simp
next
  case (Suc k)
  obtain s1 where s1: "Next W s = Inr s1" "past_last W s1" "\<not> Valid s1"
      "status s1 = STATUS kCorruption ''NO MORE DATA LEFT''"
    using Next_past_last[OF Suc.prems(1)] by blast
  show ?case
  proof (cases k)
    case 0
    then show ?thesis using s1 by simp
  next
    case (Suc j)
    then have "\<exists>s'. Nexts W k s1 = Inr s' \<and> \<not> Valid s'
           \<and> status s' = STATUS kCorruption ''NO MORE DATA LEFT''"
      using Suc.IH[OF s1(2)] by simp
    then show ?thesis using s1(1) by simp
  qed
qed

theorem no_more_data_is_kept_witness:
  "past_last (behind_world 5) behind_state
   \<and> observe (Nexts (behind_world 5) 1 behind_state)
       = Inr (False, STATUS kCorruption ''NO MORE DATA LEFT'')
   \<and> observe (Nexts (behind_world 5) 3 behind_state)
       = Inr (False, STATUS kCorruption ''NO MORE DATA LEFT'')"
proof -
  have h: "past_last (behind_world 5) behind_state" by code_simp
  have a: "observe (Nexts (behind_world 5) 1 behind_state)
       = Inr (False, STATUS kCorruption ''NO MORE DATA LEFT'')"
    using no_more_data_is_kept[OF h, of 1] by (auto simp: observe_def)
  have b: "observe (Nexts (behind_world 5) 3 behind_state)
       = Inr (False, STATUS kCorruption ''NO MORE DATA LEFT'')"
    using no_more_data_is_kept[OF h, of 3] by (auto simp: observe_def)
  show ?thesis using h a b by simp
qed

text \<open>
  C2 as stated fails. Log 2 cannot be opened: the first \<^verbatim>\<open>Next()\<close> sets the error of
  the file system and the second replaces it by OK. On the log with the gap the first
  \<^verbatim>\<open>Next()\<close> sets the Corruption of the strict seek, and the second seeks again from
  the first file, not strictly, and ends with \<^verbatim>\<open>Valid()\<close> true and status OK.
\<close>

theorem latched_status_overwritten:
  "observe (run (lost_world 1) ''db'' 1 [live_file 1 1, live_file 2 2] 1)
       = Inr (False, STATUS kIOError ''No such file or directory'')
   \<and> observe (run (lost_world 1) ''db'' 1 [live_file 1 1, live_file 2 2] 2) = Inr (False, OK)
   \<and> observe (run (lost_world 5) ''db'' 1 [live_file 1 1, live_file 2 2] 1)
       = Inr (False, STATUS kIOError ''No such file or directory'')
   \<and> observe (run (lost_world 5) ''db'' 1 [live_file 1 1, live_file 2 2] 2)
       = Inr (False, STATUS kCorruption ''NO MORE DATA LEFT'')
   \<and> observe (run (gap_world 5) ''db'' 1 [live_file 1 1] 1) = Inr (False, gap_status)
   \<and> observe (run (gap_world 5) ''db'' 1 [live_file 1 1] 2) = Inr (True, OK)"
  by code_simp

end
